theory Spec2Isabelle
  imports Main "HOL-Library.Multiset"
begin

section \<open>Data model (types.ts)\<close>

text \<open>
  The interfaces \<open>Item\<close>, \<open>Category\<close>, \<open>ChatMessage\<close> and the tagged union
  \<open>UndoAction\<close>. Optional properties (\<open>dueDate?\<close>, \<open>notes?\<close>) are options, \<open>None\<close>
  standing for \<open>undefined\<close>.

  \<open>Category.name\<close> and \<open>Category.icon\<close> are declared \<open>string\<close>, but the assistant's
  \<open>rename_category\<close> and \<open>create_category\<close> branches store whatever the response
  carries in the optional properties \<open>newName\<close> and \<open>icon\<close>, \<open>undefined\<close> included.
  The two fields are therefore options here; every category built by the user
  interface has both defined.
\<close>

record Item =
  item_id :: string
  content :: string
  completed :: bool
  dueDate :: "string option"
  item_notes :: "string option"

record Category =
  cat_id :: string
  cat_name :: "string option"
  cat_icon :: "string option"
  items :: "Item list"

datatype Sender = User | AI

record ChatMessage =
  msg_id :: string
  msg_text :: string
  sender :: Sender

text \<open>Each constructor lists the payload properties in the order of types.ts.\<close>

datatype UndoAction =
    ITEM_ADD string string
  | ITEM_DELETE string Item int
  | ITEM_TOGGLE string string
  | ITEM_NOTES_UPDATE string string string
  | ITEM_DRAG string int int
  | CATEGORY_ADD string
  | CATEGORY_DELETE Category int

text \<open>
  The state held by the \<open>App\<close> component. \<open>confirmAction\<close> holds a message and a
  callback in the source; only the message is kept. \<open>aiConfigured\<close> says that
  \<open>aiRef.current\<close> is set.
\<close>

record app_state =
  categories :: "Category list"
  activeCategoryId :: "string option"
  selectedItemId :: "string option"
  messages :: "ChatMessage list"
  isLoadingAI :: bool
  confirmAction :: "string option"
  undoAction :: "UndoAction option"
  aiConfigured :: bool

section \<open>JavaScript built-ins used by the handlers\<close>

text \<open>\<open>Array.prototype.findIndex\<close>: the first index whose element satisfies the predicate, else -1.\<close>

fun findIndex :: "('a \<Rightarrow> bool) \<Rightarrow> 'a list \<Rightarrow> int" where
  "findIndex P [] = - 1"
| "findIndex P (x # xs) =
     (if P x then 0 else (let r = findIndex P xs in if r < 0 then - 1 else r + 1))"

text \<open>
  How \<open>Array.prototype.splice\<close> reads its \<open>start\<close> argument on an array of length
  \<open>len\<close>: a negative start counts from the end, and the result is clamped to \<open>0..len\<close>.
\<close>

definition relativeStart :: "int \<Rightarrow> nat \<Rightarrow> nat" where
  "relativeStart start len =
     (if start < 0 then nat (max (int len + start) 0) else min (nat start) len)"

text \<open>\<open>xs.splice(start, 0, x)\<close>: the array after the insertion.\<close>

definition splice_insert :: "'a list \<Rightarrow> int \<Rightarrow> 'a \<Rightarrow> 'a list" where
  "splice_insert xs start x =
     (let k = relativeStart start (length xs) in take k xs @ x # drop k xs)"

text \<open>
  \<open>arrayMove\<close> of @dnd-kit/sortable, a dependency of the repository:
  \<^verbatim>\<open>
  const newArray = array.slice();
  newArray.splice(to < 0 ? newArray.length + to : to, 0, newArray.splice(from, 1)[0]);
  return newArray;
  \<close>
  The position is computed before the inner \<open>splice\<close> removes the element. When
  no element stands at \<open>from\<close>, the inner \<open>splice\<close> returns an empty array and
  JavaScript inserts \<open>undefined\<close>; the result is then no array of \<open>'a\<close>, which is
  \<open>None\<close> here.
\<close>

definition arrayMove :: "'a list \<Rightarrow> int \<Rightarrow> int \<Rightarrow> 'a list option" where
  "arrayMove array from to =
     (let n = length array;
          pos = (if to < 0 then int n + to else to);
          k = relativeStart from n
      in if k < n
         then Some (splice_insert (take k array @ drop (Suc k) array) pos (array ! k))
         else None)"

text \<open>Decimal rendering of a number inside a template string, for \<open>Date.now()\<close>.\<close>

fun decimal :: "nat \<Rightarrow> string" where
  "decimal n =
     (if n < 10 then [''0123456789'' ! n]
      else decimal (n div 10) @ [''0123456789'' ! (n mod 10)])"

declare decimal.simps [simp del]

section \<open>Handlers of the user interface (App.tsx)\<close>

text \<open>
  Every handler is a function from the state it is called in to the state after its
  updates are applied. A handler that calls \<open>Date.now()\<close> takes the value read as
  the argument \<open>now\<close>.
\<close>

definition activeCategory :: "app_state \<Rightarrow> Category option" where
  "activeCategory s = find (\<lambda>c. Some (cat_id c) = activeCategoryId s) (categories s)"

text \<open>The effect that reselects a category (lines 71-75); \<open>!activeCategoryId\<close> holds for \<open>null\<close> and for the empty string.\<close>

definition reselect :: "app_state \<Rightarrow> app_state" where
  "reselect s =
     (if activeCategoryId s = None \<or> activeCategoryId s = Some []
         \<or> \<not> (\<exists>c \<in> set (categories s). Some (cat_id c) = activeCategoryId s)
      then s\<lparr>activeCategoryId :=
               (case categories s of [] \<Rightarrow> None | c # _ \<Rightarrow> Some (cat_id c))\<rparr>
      else s)"

definition handleAddCategory :: "nat \<Rightarrow> string \<Rightarrow> string \<Rightarrow> app_state \<Rightarrow> app_state" where
  "handleAddCategory now name icon s =
     (let newCategory = \<lparr>cat_id = ''cat-'' @ decimal now, cat_name = Some name,
                          cat_icon = Some icon, items = []\<rparr>
      in s\<lparr>categories := categories s @ [newCategory],
           activeCategoryId := Some (cat_id newCategory),
           undoAction := Some (CATEGORY_ADD (cat_id newCategory))\<rparr>)"

definition handleDeleteCategory :: "string \<Rightarrow> app_state \<Rightarrow> app_state" where
  "handleDeleteCategory categoryId s =
     (case find (\<lambda>c. cat_id c = categoryId) (categories s) of
        None \<Rightarrow> s
      | Some categoryToDelete \<Rightarrow>
          (let categoryIndex = findIndex (\<lambda>c. cat_id c = categoryId) (categories s);
               remainingCategories = filter (\<lambda>c. cat_id c \<noteq> categoryId) (categories s)
           in s\<lparr>categories := remainingCategories,
                activeCategoryId :=
                  (if activeCategoryId s = Some categoryId
                   then (case remainingCategories of [] \<Rightarrow> None | c # _ \<Rightarrow> Some (cat_id c))
                   else activeCategoryId s),
                undoAction := Some (CATEGORY_DELETE categoryToDelete categoryIndex)\<rparr>))"

definition handleAddItem :: "nat \<Rightarrow> string \<Rightarrow> string \<Rightarrow> string option \<Rightarrow> app_state \<Rightarrow> app_state" where
  "handleAddItem now categoryId text due s =
     (let newItem = \<lparr>item_id = ''item-'' @ decimal now, content = text, completed = False,
                      dueDate = due, item_notes = None\<rparr>
      in s\<lparr>categories :=
             map (\<lambda>c. if cat_id c = categoryId then c\<lparr>items := items c @ [newItem]\<rparr> else c)
               (categories s),
           undoAction := Some (ITEM_ADD categoryId (item_id newItem))\<rparr>)"

definition toggle :: "string \<Rightarrow> Item \<Rightarrow> Item" where
  "toggle itemId i = (if item_id i = itemId then i\<lparr>completed := \<not> completed i\<rparr> else i)"

definition handleToggleItem :: "string \<Rightarrow> string \<Rightarrow> app_state \<Rightarrow> app_state" where
  "handleToggleItem categoryId itemId s =
     s\<lparr>categories :=
         map (\<lambda>c. if cat_id c = categoryId then c\<lparr>items := map (toggle itemId) (items c)\<rparr> else c)
           (categories s),
       undoAction := Some (ITEM_TOGGLE categoryId itemId)\<rparr>"

definition handleDeleteItem :: "string \<Rightarrow> string \<Rightarrow> app_state \<Rightarrow> app_state" where
  "handleDeleteItem categoryId itemId s =
     (case find (\<lambda>c. cat_id c = categoryId) (categories s) of
        None \<Rightarrow> s
      | Some category \<Rightarrow>
          (let itemIndex = findIndex (\<lambda>i. item_id i = itemId) (items category)
           in if itemIndex = - 1 then s
              else (let deletedItem = items category ! nat itemIndex
                    in s\<lparr>categories :=
                           map (\<lambda>c. if cat_id c = categoryId
                                    then c\<lparr>items := filter (\<lambda>i. item_id i \<noteq> itemId) (items c)\<rparr>
                                    else c)
                             (categories s),
                         undoAction := Some (ITEM_DELETE categoryId deletedItem itemIndex)\<rparr>)))"

definition handleSelectItem :: "string \<Rightarrow> app_state \<Rightarrow> app_state" where
  "handleSelectItem itemId s =
     s\<lparr>selectedItemId := (if selectedItemId s = Some itemId then None else Some itemId)\<rparr>"

text \<open>\<open>item.notes || ''\<close>: an absent note and the empty note both give the empty string.\<close>

definition notes_or_empty :: "Item \<Rightarrow> string" where
  "notes_or_empty i = (case item_notes i of None \<Rightarrow> [] | Some n \<Rightarrow> n)"

definition setNotes :: "string \<Rightarrow> string \<Rightarrow> Item \<Rightarrow> Item" where
  "setNotes itemId n i = (if item_id i = itemId then i\<lparr>item_notes := Some n\<rparr> else i)"

definition handleUpdateItemNotes :: "string \<Rightarrow> string \<Rightarrow> string \<Rightarrow> app_state \<Rightarrow> app_state" where
  "handleUpdateItemNotes categoryId itemId newNotes s =
     (let prevNotes =
            (case find (\<lambda>c. cat_id c = categoryId) (categories s) of
               None \<Rightarrow> []
             | Some category \<Rightarrow>
                 (case find (\<lambda>i. item_id i = itemId) (items category) of
                    None \<Rightarrow> []
                  | Some item \<Rightarrow> notes_or_empty item))
      in s\<lparr>categories :=
             map (\<lambda>c. if cat_id c = categoryId
                      then c\<lparr>items := map (setNotes itemId newNotes) (items c)\<rparr> else c)
               (categories s),
           undoAction := Some (ITEM_NOTES_UPDATE categoryId itemId prevNotes)\<rparr>)"

text \<open>
  \<open>prev.map(c => c.id === categoryId ? {...c, items: arrayMove(c.items, i, j)} : c)\<close>,
  shared by \<open>handleDragEnd\<close> and the \<open>ITEM_DRAG\<close> case of \<open>handleUndo\<close>. The result
  is \<open>None\<close> when one of the moves leaves \<open>undefined\<close> in an item array.
\<close>

definition moveItems :: "string \<Rightarrow> int \<Rightarrow> int \<Rightarrow> Category list \<Rightarrow> Category list option" where
  "moveItems categoryId i j cs =
     those (map (\<lambda>c. if cat_id c = categoryId
                     then map_option (\<lambda>moved. c\<lparr>items := moved\<rparr>) (arrayMove (items c) i j)
                     else Some c) cs)"

text \<open>A \<open>DragEndEvent\<close>: the id of the dragged element, and of the element it is over (or \<open>null\<close>).\<close>

record DragEndEvent =
  active :: string
  over :: "string option"

definition handleDragEnd :: "DragEndEvent \<Rightarrow> app_state \<Rightarrow> app_state option" where
  "handleDragEnd event s =
     (if over event = None \<or> over event = Some (active event) then Some s
      else case activeCategory s of
        None \<Rightarrow> Some s
      | Some ac \<Rightarrow>
          (let oldIndex = findIndex (\<lambda>i. item_id i = active event) (items ac);
               newIndex = findIndex (\<lambda>i. Some (item_id i) = over event) (items ac)
           in map_option
                (\<lambda>cs. s\<lparr>categories := cs, selectedItemId := None,
                        undoAction := Some (ITEM_DRAG (cat_id ac) oldIndex newIndex)\<rparr>)
                (moveItems (cat_id ac) oldIndex newIndex (categories s))))"

definition undoCategories :: "UndoAction \<Rightarrow> Category list \<Rightarrow> Category list option" where
  "undoCategories u prev =
     (case u of
        ITEM_ADD categoryId itemId \<Rightarrow>
          Some (map (\<lambda>c. if cat_id c = categoryId
                         then c\<lparr>items := filter (\<lambda>i. item_id i \<noteq> itemId) (items c)\<rparr>
                         else c) prev)
      | ITEM_DELETE categoryId item index \<Rightarrow>
          Some (map (\<lambda>c. if cat_id c = categoryId
                         then c\<lparr>items := splice_insert (items c) index item\<rparr>
                         else c) prev)
      | ITEM_TOGGLE categoryId itemId \<Rightarrow>
          Some (map (\<lambda>c. if cat_id c = categoryId
                         then c\<lparr>items := map (toggle itemId) (items c)\<rparr>
                         else c) prev)
      | ITEM_NOTES_UPDATE categoryId itemId prevNotes \<Rightarrow>
          Some (map (\<lambda>c. if cat_id c = categoryId
                         then c\<lparr>items := map (setNotes itemId prevNotes) (items c)\<rparr>
                         else c) prev)
      | ITEM_DRAG categoryId oldIndex newIndex \<Rightarrow> moveItems categoryId newIndex oldIndex prev
      | CATEGORY_ADD categoryId \<Rightarrow> Some (filter (\<lambda>c. cat_id c \<noteq> categoryId) prev)
      | CATEGORY_DELETE category index \<Rightarrow> Some (splice_insert prev index category))"

definition handleUndo :: "app_state \<Rightarrow> app_state option" where
  "handleUndo s =
     (case undoAction s of
        None \<Rightarrow> Some s
      | Some u \<Rightarrow>
          map_option (\<lambda>cs. s\<lparr>categories := cs, undoAction := None\<rparr>)
            (undoCategories u (categories s)))"

section \<open>The assistant's response (services/geminiService.ts, responseSchema)\<close>

text \<open>
  The parsed response follows \<open>responseSchema\<close>: the properties the schema lists as
  \<open>required\<close> are plain values, every other property is an option. The schema
  declares no \<open>id\<close> for the elements of \<open>items\<close>; an element that carries one all the
  same has it in \<open>ai_id\<close>, since the \<open>add\<close> case spreads every property of the element
  into the item it stores.
\<close>

record ai_item =
  ai_id :: "string option"
  ai_content :: string
  ai_categoryName :: string
  ai_completed :: "bool option"
  ai_dueDate :: "string option"
  ai_newContent :: "string option"
  ai_notes :: "string option"

record CategoryDetails =
  cd_name :: "string option"
  cd_newName :: "string option"
  cd_icon :: "string option"
  cd_sourceName :: "string option"
  cd_destinationName :: "string option"

record ai_filter =
  f_categoryName :: "string option"
  f_completed :: "bool option"

record ai_result =
  action :: string
  res_items :: "ai_item list option"
  category_details :: "CategoryDetails option"
  res_filter :: "ai_filter option"
  response :: string

text \<open>
  What \<open>handleSendMessage\<close> gets back from the model: the request fails (the promise
  rejects, or the response has no text), or \<open>JSON.parse\<close> throws on the text, or the
  text parses to a response.
\<close>

datatype ai_reply = Rejected | Unparsable | Parsed ai_result

text \<open>
  The values \<open>handleSendMessage\<close> reads from the environment: \<open>Date.now()\<close> at line
  242 (\<open>t_user\<close>), at line 275 in the iteration over the k-th element (\<open>t_item k\<close>),
  at line 303 (\<open>t_category\<close>) and at lines 247, 368 and 372 (\<open>t_reply\<close>), and the rendering of
  \<open>Math.random()\<close> in the k-th iteration (\<open>random k\<close>).
\<close>

record clock =
  t_user :: nat
  t_item :: "nat \<Rightarrow> nat"
  random :: "nat \<Rightarrow> string"
  t_category :: nat
  t_reply :: nat

text \<open>
  \<open>String.prototype.toLowerCase\<close> and \<open>String.prototype.trim\<close> are parameters of the
  model; \<open>ascii_builtins\<close> below is an instance on ASCII text.
\<close>

record builtins =
  toLowerCase :: "string \<Rightarrow> string"
  trim :: "string \<Rightarrow> string"

datatype js_error = TypeError

text \<open>
  \<open>c.name.toLowerCase() === n.toLowerCase()\<close>: calling \<open>toLowerCase\<close> on
  \<open>undefined\<close> throws a TypeError.
\<close>

definition sameName :: "builtins \<Rightarrow> string option \<Rightarrow> string option \<Rightarrow> js_error + bool" where
  "sameName B stored given =
     (case stored of
        None \<Rightarrow> Inl TypeError
      | Some a \<Rightarrow> (case given of
                    None \<Rightarrow> Inl TypeError
                  | Some b \<Rightarrow> Inr (toLowerCase B a = toLowerCase B b)))"

text \<open>\<open>find\<close>, \<open>some\<close>, \<open>filter\<close> and \<open>map\<close> with a callback that may throw: the first exception ends the traversal.\<close>

fun findE :: "('a \<Rightarrow> js_error + bool) \<Rightarrow> 'a list \<Rightarrow> js_error + 'a option" where
  "findE p [] = Inr None"
| "findE p (x # xs) =
     (case p x of Inl e \<Rightarrow> Inl e | Inr b \<Rightarrow> if b then Inr (Some x) else findE p xs)"

text \<open>The position of the element \<open>find\<close> returns: the handlers mutate that element of the array in place.\<close>

fun findPos :: "('a \<Rightarrow> js_error + bool) \<Rightarrow> 'a list \<Rightarrow> js_error + nat option" where
  "findPos p [] = Inr None"
| "findPos p (x # xs) =
     (case p x of
        Inl e \<Rightarrow> Inl e
      | Inr b \<Rightarrow> if b then Inr (Some 0)
                else (case findPos p xs of
                        Inl e \<Rightarrow> Inl e
                      | Inr None \<Rightarrow> Inr None
                      | Inr (Some k) \<Rightarrow> Inr (Some (Suc k))))"

definition someE :: "('a \<Rightarrow> js_error + bool) \<Rightarrow> 'a list \<Rightarrow> js_error + bool" where
  "someE p xs = (case findE p xs of Inl e \<Rightarrow> Inl e | Inr r \<Rightarrow> Inr (r \<noteq> None))"

fun filterE :: "('a \<Rightarrow> js_error + bool) \<Rightarrow> 'a list \<Rightarrow> js_error + 'a list" where
  "filterE p [] = Inr []"
| "filterE p (x # xs) =
     (case p x of
        Inl e \<Rightarrow> Inl e
      | Inr b \<Rightarrow> (case filterE p xs of
                    Inl e \<Rightarrow> Inl e
                  | Inr ys \<Rightarrow> Inr (if b then x # ys else ys)))"

fun mapE :: "('a \<Rightarrow> js_error + 'b) \<Rightarrow> 'a list \<Rightarrow> js_error + 'b list" where
  "mapE f [] = Inr []"
| "mapE f (x # xs) =
     (case f x of
        Inl e \<Rightarrow> Inl e
      | Inr y \<Rightarrow> (case mapE f xs of Inl e \<Rightarrow> Inl e | Inr ys \<Rightarrow> Inr (y # ys)))"

text \<open>
  \<open>forEach\<close> over the elements of the response, the callback working on the
  categories. The callbacks below throw, if they do, before they change anything, so
  an exception in the k-th call leaves the category objects as the calls before it
  made them: the callbacks change the objects of the captured array in place.
\<close>

fun forEachE ::
  "(nat \<Rightarrow> 'b \<Rightarrow> 'c \<Rightarrow> js_error + 'c) \<Rightarrow> nat \<Rightarrow> 'b list \<Rightarrow> 'c \<Rightarrow> js_error \<times> 'c + 'c" where
  "forEachE f k [] cs = Inr cs"
| "forEachE f k (x # xs) cs =
     (case f k x cs of Inl e \<Rightarrow> Inl (e, cs) | Inr cs' \<Rightarrow> forEachE f (Suc k) xs cs')"

text \<open>\<open>newCategories.find(c => c.name.toLowerCase() === given.toLowerCase())\<close>, and the position of its result.\<close>

definition findByName :: "builtins \<Rightarrow> string option \<Rightarrow> Category list \<Rightarrow> js_error + Category option" where
  "findByName B given cs = findE (\<lambda>c. sameName B (cat_name c) given) cs"

definition targetCategory :: "builtins \<Rightarrow> string option \<Rightarrow> Category list \<Rightarrow> js_error + nat option" where
  "targetCategory B given cs = findPos (\<lambda>c. sameName B (cat_name c) given) cs"

text \<open>The id \<open>`item-${Date.now()}-${Math.random()}`\<close> made in the k-th iteration.\<close>

definition newItemId :: "clock \<Rightarrow> nat \<Rightarrow> string" where
  "newItemId E k = ''item-'' @ decimal (t_item E k) @ ''-'' @ random E k"

text \<open>
  The callback of the \<open>add\<close> case. The object pushed is
  \<open>{id, ...itemToAdd, completed: false}\<close>: an \<open>id\<close> of the element replaces the generated
  one, \<open>completed\<close> is false whatever the element says, and of the other properties
  spread into the object the model keeps those of \<open>Item\<close>.
\<close>

definition addOne :: "builtins \<Rightarrow> clock \<Rightarrow> nat \<Rightarrow> ai_item \<Rightarrow> Category list \<Rightarrow> js_error + Category list" where
  "addOne B E k itemToAdd cs =
     (case targetCategory B (Some (ai_categoryName itemToAdd)) cs of
        Inl e \<Rightarrow> Inl e
      | Inr None \<Rightarrow> Inr cs
      | Inr (Some p) \<Rightarrow>
          Inr (cs[p := (cs ! p)\<lparr>items := items (cs ! p) @
                 [\<lparr>item_id = (case ai_id itemToAdd of None \<Rightarrow> newItemId E k | Some given \<Rightarrow> given),
                   content = ai_content itemToAdd, completed = False,
                   dueDate = ai_dueDate itemToAdd, item_notes = ai_notes itemToAdd\<rparr>]\<rparr>]))"

definition updatedItem :: "ai_item \<Rightarrow> Item \<Rightarrow> Item" where
  "updatedItem itemToUpdate originalItem =
     originalItem
       \<lparr>content := (case ai_newContent itemToUpdate of None \<Rightarrow> content originalItem | Some n \<Rightarrow> n),
        completed := (case ai_completed itemToUpdate of None \<Rightarrow> completed originalItem | Some b \<Rightarrow> b),
        dueDate := (case ai_dueDate itemToUpdate of None \<Rightarrow> dueDate originalItem | Some d \<Rightarrow> Some d),
        item_notes := (case ai_notes itemToUpdate of None \<Rightarrow> item_notes originalItem | Some n \<Rightarrow> Some n)\<rparr>"

definition updateOne :: "builtins \<Rightarrow> nat \<Rightarrow> ai_item \<Rightarrow> Category list \<Rightarrow> js_error + Category list" where
  "updateOne B k itemToUpdate cs =
     (case targetCategory B (Some (ai_categoryName itemToUpdate)) cs of
        Inl e \<Rightarrow> Inl e
      | Inr None \<Rightarrow> Inr cs
      | Inr (Some p) \<Rightarrow>
          (let itemIndex =
                 findIndex (\<lambda>i. toLowerCase B (content i) = toLowerCase B (ai_content itemToUpdate))
                   (items (cs ! p))
           in if itemIndex > - 1
              then Inr (cs[p := (cs ! p)\<lparr>items := (items (cs ! p))
                          [nat itemIndex := updatedItem itemToUpdate (items (cs ! p) ! nat itemIndex)]\<rparr>])
              else Inr cs))"

definition deleteOne :: "builtins \<Rightarrow> nat \<Rightarrow> ai_item \<Rightarrow> Category list \<Rightarrow> js_error + Category list" where
  "deleteOne B k itemToDelete cs =
     (case targetCategory B (Some (ai_categoryName itemToDelete)) cs of
        Inl e \<Rightarrow> Inl e
      | Inr None \<Rightarrow> Inr cs
      | Inr (Some p) \<Rightarrow>
          Inr (cs[p := (cs ! p)\<lparr>items :=
                 filter (\<lambda>i. toLowerCase B (content i) \<noteq> toLowerCase B (ai_content itemToDelete))
                   (items (cs ! p))\<rparr>]))"

text \<open>
  The outcome of the \<open>switch\<close> over \<open>result.action\<close> (lines 269-365): either an
  exception, with the categories as the state's objects stand at that moment, or
  \<open>newCategories\<close> together with the argument of \<open>setActiveCategoryId\<close> where the
  branch calls it.
\<close>

datatype applied =
    Threw js_error "Category list"
  | Applied "Category list" "string option option"

definition firstId :: "Category list \<Rightarrow> string option" where
  "firstId cs = (case cs of [] \<Rightarrow> None | c # _ \<Rightarrow> Some (cat_id c))"

definition looped :: "js_error \<times> Category list + Category list \<Rightarrow> applied" where
  "looped r = (case r of Inl (e, cs) \<Rightarrow> Threw e cs | Inr cs \<Rightarrow> Applied cs None)"

definition case_add :: "builtins \<Rightarrow> clock \<Rightarrow> ai_result \<Rightarrow> Category list \<Rightarrow> applied" where
  "case_add B E result newCategories =
     (case res_items result of
        None \<Rightarrow> Applied newCategories None
      | Some its \<Rightarrow> looped (forEachE (addOne B E) 0 its newCategories))"

definition case_update :: "builtins \<Rightarrow> ai_result \<Rightarrow> Category list \<Rightarrow> applied" where
  "case_update B result newCategories =
     (case res_items result of
        None \<Rightarrow> Applied newCategories None
      | Some its \<Rightarrow> looped (forEachE (updateOne B) 0 its newCategories))"

text \<open>
  In \<open>create_category\<close> the test \<open>getIcon(icon)\<close> always succeeds, since \<open>getIcon\<close>
  falls back to the default component: the icon stored is the one of the response.
\<close>

definition case_create_category :: "builtins \<Rightarrow> clock \<Rightarrow> ai_result \<Rightarrow> Category list \<Rightarrow> applied" where
  "case_create_category B E result newCategories =
     (case category_details result of
        None \<Rightarrow> Applied newCategories None
      | Some d \<Rightarrow>
          (case cd_name d of
             None \<Rightarrow> Applied newCategories None
           | Some name \<Rightarrow>
               if name = [] then Applied newCategories None
               else (case someE (\<lambda>c. sameName B (cat_name c) (Some name)) newCategories of
                       Inl e \<Rightarrow> Threw e newCategories
                     | Inr exists \<Rightarrow>
                         if exists then Applied newCategories None
                         else (let newCategory =
                                     \<lparr>cat_id = ''cat-'' @ decimal (t_category E), cat_name = Some name,
                                      cat_icon = cd_icon d, items = []\<rparr>
                               in Applied (newCategories @ [newCategory])
                                    (Some (Some (cat_id newCategory)))))))"

definition case_rename_category :: "builtins \<Rightarrow> ai_result \<Rightarrow> Category list \<Rightarrow> applied" where
  "case_rename_category B result newCategories =
     (case category_details result of
        None \<Rightarrow> Applied newCategories None
      | Some d \<Rightarrow>
          (case mapE (\<lambda>c. case sameName B (cat_name c) (cd_name d) of
                            Inl e \<Rightarrow> Inl e
                          | Inr b \<Rightarrow> Inr (if b then c\<lparr>cat_name := cd_newName d\<rparr> else c))
                  newCategories of
             Inl e \<Rightarrow> Threw e newCategories
           | Inr renamed \<Rightarrow> Applied renamed None))"

text \<open>
  In \<open>delete_category\<close> the test \<open>activeCategory?.name.toLowerCase() === name.toLowerCase()\<close>
  evaluates its right side also when there is no active category.
\<close>

definition case_delete_category ::
  "builtins \<Rightarrow> ai_result \<Rightarrow> Category option \<Rightarrow> Category list \<Rightarrow> applied" where
  "case_delete_category B result activeCat newCategories =
     (case category_details result of
        None \<Rightarrow> Applied newCategories None
      | Some d \<Rightarrow>
          (case filterE (\<lambda>c. case sameName B (cat_name c) (cd_name d) of
                               Inl e \<Rightarrow> Inl e | Inr b \<Rightarrow> Inr (\<not> b))
                  newCategories of
             Inl e \<Rightarrow> Threw e newCategories
           | Inr remaining \<Rightarrow>
               (case (case activeCat of
                        None \<Rightarrow> (case cd_name d of None \<Rightarrow> Inl TypeError | Some _ \<Rightarrow> Inr False)
                      | Some ac \<Rightarrow> sameName B (cat_name ac) (cd_name d)) of
                  Inl e \<Rightarrow> Threw e newCategories
                | Inr isActive \<Rightarrow>
                    Applied remaining (if isActive then Some (firstId remaining) else None))))"

definition case_merge_categories :: "builtins \<Rightarrow> ai_result \<Rightarrow> Category list \<Rightarrow> applied" where
  "case_merge_categories B result newCategories =
     (case category_details result of
        None \<Rightarrow> Applied newCategories None
      | Some d \<Rightarrow>
          (case findByName B (cd_sourceName d) newCategories of
             Inl e \<Rightarrow> Threw e newCategories
           | Inr sourceCat \<Rightarrow>
               (case findByName B (cd_destinationName d) newCategories of
                  Inl e \<Rightarrow> Threw e newCategories
                | Inr destCat \<Rightarrow>
                    (case (sourceCat, destCat) of
                       (Some src, Some dst) \<Rightarrow>
                         Applied
                           (filter (\<lambda>c. cat_id c \<noteq> cat_id src)
                              (map (\<lambda>c. if cat_id c = cat_id dst
                                        then c\<lparr>items := items c @ items src\<rparr> else c)
                                 newCategories))
                           None
                     | _ \<Rightarrow> Applied newCategories None))))"

definition case_delete :: "builtins \<Rightarrow> ai_result \<Rightarrow> Category list \<Rightarrow> applied" where
  "case_delete B result newCategories =
     (case res_filter result of
        Some f \<Rightarrow>
          (case targetCategory B (f_categoryName f) newCategories of
             Inl e \<Rightarrow> Threw e newCategories
           | Inr None \<Rightarrow> Applied newCategories None
           | Inr (Some p) \<Rightarrow>
               Applied
                 (newCategories[p := (newCategories ! p)\<lparr>items :=
                    filter (\<lambda>i. Some (completed i) \<noteq> f_completed f) (items (newCategories ! p))\<rparr>])
                 None)
      | None \<Rightarrow>
          (case res_items result of
             None \<Rightarrow> Applied newCategories None
           | Some its \<Rightarrow> looped (forEachE (deleteOne B) 0 its newCategories)))"

definition applyAction :: "builtins \<Rightarrow> clock \<Rightarrow> ai_result \<Rightarrow> app_state \<Rightarrow> applied" where
  "applyAction B E result s =
     (let newCategories = categories s in
      if action result = ''add'' then case_add B E result newCategories
      else if action result = ''update'' then case_update B result newCategories
      else if action result = ''create_category'' then case_create_category B E result newCategories
      else if action result = ''rename_category'' then case_rename_category B result newCategories
      else if action result = ''delete_category''
        then case_delete_category B result (activeCategory s) newCategories
      else if action result = ''merge_categories'' then case_merge_categories B result newCategories
      else if action result = ''delete'' then case_delete B result newCategories
      else Applied newCategories None)"

text \<open>The texts of the two fixed messages, in UTF-8.\<close>

definition mockText :: string where
  "mockText = ''Cl'' @ [CHR 0xC3, CHR 0xA9] @ '' API non configur'' @ [CHR 0xC3, CHR 0xA9]
     @ ''e. Ceci est une r'' @ [CHR 0xC3, CHR 0xA9] @ ''ponse factice.''"

definition apologyText :: string where
  "apologyText = ''D'' @ [CHR 0xC3, CHR 0xA9] @ ''sol'' @ [CHR 0xC3, CHR 0xA9]
     @ '', une erreur est survenue.''"

definition aiSays :: "clock \<Rightarrow> string \<Rightarrow> ChatMessage" where
  "aiSays E t = \<lparr>msg_id = ''msg-'' @ decimal (t_reply E + 1), msg_text = t, sender = AI\<rparr>"

text \<open>The \<open>catch\<close> block followed by \<open>finally\<close> (lines 370-376).\<close>

definition catchBlock :: "clock \<Rightarrow> app_state \<Rightarrow> app_state" where
  "catchBlock E s = s\<lparr>messages := messages s @ [aiSays E apologyText], isLoadingAI := False\<rparr>"

text \<open>
  \<open>handleSendMessage\<close> is asynchronous. It runs up to the \<open>await\<close> in the state \<open>s\<close> it is
  called in (lines 240-262): that is \<open>sendMessage\<close>, and \<open>requestSent\<close> says that the
  request went out. It resumes when the reply is there (lines 264-376): that is
  \<open>receiveReply\<close>. The controls of the lists stay enabled in between, so other
  handlers may run; the state is then another one, while \<open>categories\<close> and
  \<open>activeCategory\<close> in the resumed code are still those of \<open>s\<close>, captured by the
  closure. \<open>setCategories(newCategories)\<close> and \<open>setActiveCategoryId\<close> write absolute
  values, \<open>setMessages\<close> updates the current list.
\<close>

definition requestSent :: "builtins \<Rightarrow> string \<Rightarrow> app_state \<Rightarrow> bool" where
  "requestSent B text s = (trim B text \<noteq> [] \<and> \<not> isLoadingAI s \<and> aiConfigured s)"

definition sendMessage :: "builtins \<Rightarrow> clock \<Rightarrow> string \<Rightarrow> app_state \<Rightarrow> app_state" where
  "sendMessage B E text s =
     (if trim B text = [] \<or> isLoadingAI s then s
      else
        (let userMessage = \<lparr>msg_id = ''msg-'' @ decimal (t_user E), msg_text = text, sender = User\<rparr>;
             s1 = s\<lparr>messages := messages s @ [userMessage], isLoadingAI := True\<rparr>
         in if \<not> aiConfigured s
            then s1\<lparr>messages := messages s1 @ [aiSays E mockText], isLoadingAI := False\<rparr>
            else s1))"

text \<open>
  What happens while the request is pending: \<open>during\<close> is the change the handlers
  called in between make to the state, and \<open>shared i = Some j\<close> says that the i-th
  category of the state at the reply is still the object that is the j-th category
  of the captured array (no handler replaced it). \<open>undisturbed\<close>: nothing ran.
\<close>

record pending =
  during :: "app_state \<Rightarrow> app_state"
  shared :: "nat \<Rightarrow> nat option"

definition undisturbed :: pending where
  "undisturbed = \<lparr>during = (\<lambda>s. s), shared = Some\<rparr>"

text \<open>
  When the \<open>switch\<close> throws, \<open>setCategories\<close> is not reached, and the state keeps its
  array; the objects in it that are shared with the captured array show what the
  iterations before the exception did to them.
\<close>

definition inPlace :: "(nat \<Rightarrow> nat option) \<Rightarrow> Category list \<Rightarrow> Category list \<Rightarrow> Category list" where
  "inPlace sh mutated current =
     map (\<lambda>i. case sh i of
                 None \<Rightarrow> current ! i
               | Some j \<Rightarrow> if j < length mutated then mutated ! j else current ! i)
       [0..<length current]"

definition receiveReply ::
  "builtins \<Rightarrow> clock \<Rightarrow> ai_reply \<Rightarrow> (nat \<Rightarrow> nat option) \<Rightarrow> app_state \<Rightarrow> app_state \<Rightarrow> app_state" where
  "receiveReply B E reply sh captured s =
     (case reply of
        Rejected \<Rightarrow> catchBlock E s
      | Unparsable \<Rightarrow> catchBlock E s
      | Parsed result \<Rightarrow>
          (let s2 = s\<lparr>undoAction := None\<rparr>
           in case applyAction B E result captured of
                Threw e cs \<Rightarrow> catchBlock E (s2\<lparr>categories := inPlace sh cs (categories s2)\<rparr>)
              | Applied cs act \<Rightarrow>
                  s2\<lparr>categories := cs,
                     activeCategoryId :=
                       (case act of None \<Rightarrow> activeCategoryId s2 | Some a \<Rightarrow> a),
                     messages := messages s2 @ [aiSays E (response result)],
                     isLoadingAI := False\<rparr>))"

text \<open>The whole call: the state after the reply has been handled, or after the early return.\<close>

definition handleSendMessage ::
  "builtins \<Rightarrow> clock \<Rightarrow> string \<Rightarrow> pending \<Rightarrow> ai_reply \<Rightarrow> app_state \<Rightarrow> app_state" where
  "handleSendMessage B E text W reply s =
     (if requestSent B text s
      then receiveReply B E reply (shared W) s (during W (sendMessage B E text s))
      else sendMessage B E text s)"

section \<open>Initial state and an instance of the built-ins\<close>

text \<open>
  \<open>INITIAL_CATEGORIES\<close> (lines 14-24), with the two dates the source computes from
  the clock as arguments. Texts are in UTF-8.
\<close>

definition INITIAL_CATEGORIES :: "string \<Rightarrow> string \<Rightarrow> Category list" where
  "INITIAL_CATEGORIES tomorrow today =
     [\<lparr>cat_id = ''cat-1'', cat_name = Some ''Achats'', cat_icon = Some ''ShoppingCart'',
       items =
         [\<lparr>item_id = ''item-1'', content = ''Lait'', completed = False, dueDate = None,
           item_notes = Some ''Lait entier bio''\<rparr>,
          \<lparr>item_id = ''item-2'', content = ''Pain'', completed = False, dueDate = None,
           item_notes = None\<rparr>]\<rparr>,
      \<lparr>cat_id = ''cat-2'', cat_name = Some ([CHR 0xC3, CHR 0x80] @ '' Faire''),
       cat_icon = Some ''ListTodo'',
       items =
         [\<lparr>item_id = ''item-3'', content = ''Appeler le m'' @ [CHR 0xC3, CHR 0xA9] @ ''decin'',
           completed = False, dueDate = Some tomorrow, item_notes = None\<rparr>,
          \<lparr>item_id = ''item-4'', content = ''Finir le rapport'', completed = True,
           dueDate = Some today, item_notes = None\<rparr>]\<rparr>,
      \<lparr>cat_id = ''cat-3'', cat_name = Some (''Films '' @ [CHR 0xC3, CHR 0xA0] @ '' voir''),
       cat_icon = Some ''Clapperboard'', items = []\<rparr>]"

text \<open>The state of \<open>App\<close> on a first load, on a day \<open>2025-01-01\<close>, with the AI client configured.\<close>

definition initialState :: app_state where
  "initialState =
     \<lparr>categories = INITIAL_CATEGORIES ''2025-01-02'' ''2025-01-01'',
      activeCategoryId = Some ''cat-1'', selectedItemId = None, messages = [],
      isLoadingAI = False, confirmAction = None, undoAction = None, aiConfigured = True\<rparr>"

definition asciiLower :: "char \<Rightarrow> char" where
  "asciiLower c =
     (case map_of (zip ''ABCDEFGHIJKLMNOPQRSTUVWXYZ'' ''abcdefghijklmnopqrstuvwxyz'') c of
        None \<Rightarrow> c | Some d \<Rightarrow> d)"

definition isSpace :: "char \<Rightarrow> bool" where
  "isSpace c = (c \<in> set [CHR '' '', CHR 0x09, CHR 0x0A, CHR 0x0B, CHR 0x0C, CHR 0x0D])"

definition ascii_builtins :: builtins where
  "ascii_builtins =
     \<lparr>toLowerCase = map asciiLower,
      trim = (\<lambda>t. rev (dropWhile isSpace (rev (dropWhile isSpace t))))\<rparr>"

definition clock0 :: clock where
  "clock0 = \<lparr>t_user = 1000, t_item = (\<lambda>k. 1001), random = (\<lambda>k. ''0.'' @ decimal k),
             t_category = 1001, t_reply = 1002\<rparr>"

section \<open>The operations as events\<close>

text \<open>
  The seven handlers that call \<open>setUndoAction\<close> with an action, as one type of
  events; \<open>perform\<close> runs the handler. \<open>records\<close> is the condition under which the
  handler reaches that call: always, or the negation of its early returns.
\<close>

datatype ui_op =
    AddItem nat string string "string option"
  | DeleteItem string string
  | ToggleItem string string
  | UpdateItemNotes string string string
  | DragEnd DragEndEvent
  | AddCategory nat string string
  | DeleteCategory string

fun perform :: "ui_op \<Rightarrow> app_state \<Rightarrow> app_state option" where
  "perform (AddItem now categoryId text due) s = Some (handleAddItem now categoryId text due s)"
| "perform (DeleteItem categoryId itemId) s = Some (handleDeleteItem categoryId itemId s)"
| "perform (ToggleItem categoryId itemId) s = Some (handleToggleItem categoryId itemId s)"
| "perform (UpdateItemNotes categoryId itemId n) s = Some (handleUpdateItemNotes categoryId itemId n s)"
| "perform (DragEnd event) s = handleDragEnd event s"
| "perform (AddCategory now name icon) s = Some (handleAddCategory now name icon s)"
| "perform (DeleteCategory categoryId) s = Some (handleDeleteCategory categoryId s)"

fun records :: "ui_op \<Rightarrow> app_state \<Rightarrow> bool" where
  "records (DeleteItem categoryId itemId) s =
     (case find (\<lambda>c. cat_id c = categoryId) (categories s) of
        None \<Rightarrow> False
      | Some category \<Rightarrow> findIndex (\<lambda>i. item_id i = itemId) (items category) \<noteq> - 1)"
| "records (DragEnd event) s =
     (over event \<noteq> None \<and> over event \<noteq> Some (active event) \<and> activeCategory s \<noteq> None)"
| "records (DeleteCategory categoryId) s =
     (find (\<lambda>c. cat_id c = categoryId) (categories s) \<noteq> None)"
| "records _ s = True"

text \<open>The identifiers of a store, and the invariant of the data model: they are unique.\<close>

definition categoryIds :: "Category list \<Rightarrow> string list" where
  "categoryIds cs = map cat_id cs"

definition itemIds :: "Category list \<Rightarrow> string list" where
  "itemIds cs = concat (map (\<lambda>c. map item_id (items c)) cs)"

definition uniqueIds :: "Category list \<Rightarrow> bool" where
  "uniqueIds cs = (distinct (categoryIds cs) \<and> distinct (itemIds cs))"

text \<open>The item whose notes \<open>handleUpdateItemNotes\<close> is about to change has notes.\<close>

fun notesDefined :: "ui_op \<Rightarrow> app_state \<Rightarrow> bool" where
  "notesDefined (UpdateItemNotes categoryId itemId n) s =
     list_all (\<lambda>c. cat_id c = categoryId \<longrightarrow>
                 list_all (\<lambda>i. item_id i = itemId \<longrightarrow> item_notes i \<noteq> None) (items c))
       (categories s)"
| "notesDefined _ s = True"

text \<open>The active category reference resolves: it is \<open>null\<close> or the id of a category of the store.\<close>

definition activeOk :: "app_state \<Rightarrow> bool" where
  "activeOk s =
     (case activeCategoryId s of None \<Rightarrow> True | Some a \<Rightarrow> a \<in> set (categoryIds (categories s)))"

section \<open>Example responses\<close>

definition noDetails :: CategoryDetails where
  "noDetails = \<lparr>cd_name = None, cd_newName = None, cd_icon = None,
                 cd_sourceName = None, cd_destinationName = None\<rparr>"

text \<open>Merge the first initial category into the second, the names written in another case.\<close>

definition mergeExample :: ai_result where
  "mergeExample =
     \<lparr>action = ''merge_categories'', res_items = None,
      category_details = Some (noDetails\<lparr>cd_sourceName := Some ''ACHATS'',
                                 cd_destinationName := Some ([CHR 0xC3, CHR 0x80] @ '' faire'')\<rparr>),
      res_filter = None, response = ''Fusion faite.''\<rparr>"

text \<open>A reply that only talks, and a rename whose response names no category.\<close>

definition chatExample :: ai_result where
  "chatExample = \<lparr>action = ''chat'', res_items = None, category_details = None,
                   res_filter = None, response = ''Bonjour !''\<rparr>"

definition brokenRename :: ai_result where
  "brokenRename = \<lparr>action = ''rename_category'', res_items = None,
                    category_details = Some noDetails, res_filter = None, response = ''Fait.''\<rparr>"

text \<open>Delete the first initial category, which holds two items.\<close>

definition deleteCategoryExample :: ai_result where
  "deleteCategoryExample =
     \<lparr>action = ''delete_category'', res_items = None,
      category_details = Some (noDetails\<lparr>cd_name := Some ''achats''\<rparr>),
      res_filter = None, response = ''Liste supprim'' @ [CHR 0xC3, CHR 0xA9] @ ''e.''\<rparr>"





section \<open>Predicates of the statements\<close>





text \<open>A reference resolves in a store: it is \<open>null\<close> or the id of one of its categories.\<close>

definition resolves :: "string option \<Rightarrow> Category list \<Rightarrow> bool" where
  "resolves a cs = (case a of None \<Rightarrow> True | Some x \<Rightarrow> x \<in> set (categoryIds cs))"

text \<open>
  The operations that change the categories or the active category: adding and
  deleting a category by hand, a message to the assistant with what happens while
  it is pending and its reply, and the effect that reselects.
\<close>

datatype category_op =
    OpAddCategory nat string string
  | OpDeleteCategory string
  | OpAssistant clock string pending ai_reply
  | OpReselect

fun step :: "builtins \<Rightarrow> category_op \<Rightarrow> app_state \<Rightarrow> app_state" where
  "step B (OpAddCategory now name icon) s = handleAddCategory now name icon s"
| "step B (OpDeleteCategory categoryId) s = handleDeleteCategory categoryId s"
| "step B (OpAssistant E message W reply) s = handleSendMessage B E message W reply s"
| "step B OpReselect s = reselect s"

fun isMerge :: "category_op \<Rightarrow> bool" where
  "isMerge (OpAssistant E message W (Parsed result)) = (action result = ''merge_categories'')"
| "isMerge _ = False"

text \<open>Nothing ran while the request of the operation was pending.\<close>

fun alone :: "category_op \<Rightarrow> bool" where
  "alone (OpAssistant E message W reply) = (W = undisturbed)"
| "alone _ = True"

text \<open>
  States for the examples. \<open>handleAddCategory\<close> is called twice while \<open>Date.now()\<close>
  returns 5; then two items are added to the category \<open>cat-5\<close>.
\<close>

definition sameClockState :: app_state where
  "sameClockState =
     handleAddCategory 5 ''Livres'' ''FileText'' (handleAddCategory 5 ''Musique'' ''Music'' initialState)"

definition twoListsOneId :: app_state where
  "twoListsOneId =
     handleAddItem 7 ''cat-5'' ''Dune'' None (handleAddItem 6 ''cat-5'' ''Gymnop'' None sameClockState)"

definition mergeMusique :: ai_result where
  "mergeMusique =
     \<lparr>action = ''merge_categories'', res_items = None,
      category_details = Some (noDetails\<lparr>cd_sourceName := Some ''musique'',
                                 cd_destinationName := Some ''achats''\<rparr>),
      res_filter = None, response = ''Fusion faite.''\<rparr>"

text \<open>
  While a request is pending: an item is added to the third initial category; the
  first item of the first category is toggled; a category is added.
\<close>

definition addItemPending :: pending where
  "addItemPending =
     \<lparr>during = handleAddItem 7 ''cat-3'' ''Dune'' None, shared = (\<lambda>i. if i = 2 then None else Some i)\<rparr>"

definition togglePending :: pending where
  "togglePending =
     \<lparr>during = handleToggleItem ''cat-1'' ''item-1'', shared = (\<lambda>i. if i = 0 then None else Some i)\<rparr>"

definition addCategoryPending :: pending where
  "addCategoryPending =
     \<lparr>during = handleAddCategory 7 ''Livres'' ''FileText'', shared = (\<lambda>i. if i < 3 then Some i else None)\<rparr>"

section \<open>The timer of the undo record\<close>

text \<open>
  The effect of lines 77-82 runs after a render in which \<open>undoAction\<close> has a new
  value: its cleanup cancels the timeout that is pending, and if the new value is an
  action it starts one of 5100 ms, whose callback is \<open>setUndoAction(null)\<close>. Every
  handler that records an action passes a new object, so the effect runs again each
  time one does. The state of the component is paired with the time left on the
  pending timeout; \<open>elapse d\<close> lets \<open>d\<close> milliseconds pass without any event.
\<close>

definition UNDO_DELAY :: nat where
  "UNDO_DELAY = 5100"

record timed_state =
  app_of :: app_state
  undoTimer :: "nat option"

definition undoEffect :: "app_state \<Rightarrow> nat option" where
  "undoEffect s = (if undoAction s \<noteq> None then Some UNDO_DELAY else None)"

definition dispatch :: "ui_op \<Rightarrow> timed_state \<Rightarrow> timed_state option" where
  "dispatch e ts =
     map_option
       (\<lambda>s'. \<lparr>app_of = s',
               undoTimer = (if records e (app_of ts) then undoEffect s' else undoTimer ts)\<rparr>)
       (perform e (app_of ts))"

definition elapse :: "nat \<Rightarrow> timed_state \<Rightarrow> timed_state" where
  "elapse d ts =
     (case undoTimer ts of
        None \<Rightarrow> ts
      | Some left \<Rightarrow>
          if left \<le> d
          then \<lparr>app_of = (app_of ts)\<lparr>undoAction := None\<rparr>, undoTimer = None\<rparr>
          else ts\<lparr>undoTimer := Some (left - d)\<rparr>)"

text \<open>The action a handler records is its own: the tag and the ids are those of the call.\<close>

fun ownAction :: "ui_op \<Rightarrow> UndoAction \<Rightarrow> bool" where
  "ownAction (AddItem now categoryId body due) u = (u = ITEM_ADD categoryId (''item-'' @ decimal now))"
| "ownAction (DeleteItem categoryId itemId) u =
     (case u of ITEM_DELETE c i k \<Rightarrow> c = categoryId \<and> item_id i = itemId | _ \<Rightarrow> False)"
| "ownAction (ToggleItem categoryId itemId) u = (u = ITEM_TOGGLE categoryId itemId)"
| "ownAction (UpdateItemNotes categoryId itemId n) u =
     (case u of ITEM_NOTES_UPDATE c i p \<Rightarrow> c = categoryId \<and> i = itemId | _ \<Rightarrow> False)"
| "ownAction (DragEnd event) u = (case u of ITEM_DRAG c a b \<Rightarrow> True | _ \<Rightarrow> False)"
| "ownAction (AddCategory now name icon) u = (u = CATEGORY_ADD (''cat-'' @ decimal now))"
| "ownAction (DeleteCategory categoryId) u =
     (case u of CATEGORY_DELETE c k \<Rightarrow> cat_id c = categoryId | _ \<Rightarrow> False)"

text \<open>The initial state with no timeout pending.\<close>

definition timedInitial :: timed_state where
  "timedInitial = \<lparr>app_of = initialState, undoTimer = None\<rparr>"

text \<open>Two items for the first initial category; the state after a toggle, with its UndoAction.\<close>

definition addExample :: ai_result where
  "addExample =
     \<lparr>action = ''add'',
      res_items = Some [\<lparr>ai_id = None, ai_content = ''Oeufs'', ai_categoryName = ''achats'',
                          ai_completed = None, ai_dueDate = None, ai_newContent = None,
                          ai_notes = None\<rparr>,
                        \<lparr>ai_id = None, ai_content = ''Beurre'', ai_categoryName = ''Achats'',
                          ai_completed = None, ai_dueDate = None, ai_newContent = None,
                          ai_notes = Some ''doux''\<rparr>],
      category_details = None, res_filter = None, response = ''Ajout'' @ [CHR 0xC3, CHR 0xA9] @ ''.''\<rparr>"

definition toggledState :: app_state where
  "toggledState = handleToggleItem ''cat-1'' ''item-1'' initialState"

section \<open>Properties\<close>

subsection \<open>Arrays\<close>

lemma findIndex_range: "- 1 \<le> findIndex P xs \<and> findIndex P xs < int (length xs)"
  by (induction xs) (auto simp: Let_def)

lemma findIndex_found:
  "findIndex P xs \<noteq> - 1 \<Longrightarrow>
     0 \<le> findIndex P xs \<and> P (xs ! nat (findIndex P xs)) \<and> find P xs = Some (xs ! nat (findIndex P xs))"
proof (induction xs)
  case Nil
  then show ?case by simp
next
  case (Cons x xs)
  show ?case
  proof (cases "P x")
    case True
    then show ?thesis by simp
  next
    case False
    with Cons.prems have ne: "findIndex P xs \<noteq> - 1"
      by (auto simp: Let_def split: if_splits)
    from Cons.IH [OF ne] have ih: "0 \<le> findIndex P xs" "P (xs ! nat (findIndex P xs))"
      "find P xs = Some (xs ! nat (findIndex P xs))" by auto
    have "nat (findIndex P xs + 1) = Suc (nat (findIndex P xs))"
      using ih(1) by simp
    with False ih show ?thesis by (simp add: Let_def)
  qed
qed

lemma findIndex_none: "findIndex P xs = - 1 \<Longrightarrow> find P xs = None"
proof (induction xs)
  case Nil
  then show ?case by simp
next
  case (Cons x xs)
  have "- 1 \<le> findIndex P xs" using findIndex_range [of P xs] by simp
  with Cons show ?case by (auto simp: Let_def split: if_splits)
qed

lemma find_unique_key:
  "distinct (map f xs) \<Longrightarrow> find (\<lambda>x. f x = k) xs = Some x0 \<Longrightarrow> x \<in> set xs \<Longrightarrow> f x = k \<Longrightarrow> x = x0"
  by (induction xs) (auto split: if_splits)

lemma filter_key_nth:
  "distinct (map f xs) \<Longrightarrow> k < length xs \<Longrightarrow>
     filter (\<lambda>x. f x \<noteq> f (xs ! k)) xs = take k xs @ drop (Suc k) xs"
proof (induction xs arbitrary: k)
  case Nil
  then show ?case by simp
next
  case (Cons x xs)
  show ?case
  proof (cases k)
    case 0
    from Cons.prems have "f x \<notin> f ` set xs" by simp
    then have "\<forall>y \<in> set xs. f y \<noteq> f x" by (metis imageI)
    then have "filter (\<lambda>y. f y \<noteq> f x) xs = xs" by (simp add: filter_id_conv)
    with 0 show ?thesis by simp
  next
    case (Suc j)
    with Cons.prems have j: "j < length xs" and d: "distinct (map f xs)" by auto
    have "xs ! j \<in> set xs" using j by simp
    with Cons.prems have "f x \<noteq> f (xs ! j)" by auto
    with Suc Cons.IH [OF d j] show ?thesis by simp
  qed
qed

lemma splice_insert_removed:
  assumes "k < length xs"
  shows "splice_insert (take k xs @ drop (Suc k) xs) (int k) (xs ! k) = xs"
proof -
  have "min k (length xs - Suc 0) = k" using assms by simp
  with assms show ?thesis
    by (simp add: splice_insert_def relativeStart_def Let_def id_take_nth_drop [symmetric])
qed

lemma arrayMove_inverse:
  assumes mv: "arrayMove xs a b = Some ys"
    and a: "- int (length xs) \<le> a" "a < int (length xs)"
    and b: "- int (length xs) \<le> b" "b < int (length xs)"
  shows "arrayMove ys b a = Some xs"
proof -
  define n where "n = length xs"
  define ra where "ra = relativeStart a n"
  define rb where "rb = relativeStart b n"
  define zs where "zs = take ra xs @ drop (Suc ra) xs"
  have ra: "ra < n" "int ra = (if a < 0 then int n + a else a)"
    using a by (auto simp: ra_def relativeStart_def n_def)
  have rb: "rb < n" "int rb = (if b < 0 then int n + b else b)"
    using b by (auto simp: rb_def relativeStart_def n_def)
  have lz: "length zs = n - 1" using ra by (auto simp: zs_def n_def)
  have rb_le: "rb \<le> length zs" using rb lz by simp
  have ra_le: "ra \<le> length zs" using ra lz by simp
  have ys: "ys = take rb zs @ (xs ! ra) # drop rb zs"
  proof -
    have "relativeStart (int rb) (length zs) = rb"
      using rb_le by (simp add: relativeStart_def)
    with mv ra rb show ?thesis
      by (simp add: arrayMove_def Let_def n_def [symmetric] ra_def [symmetric]
          zs_def [symmetric] splice_insert_def split: if_splits)
  qed
  have ly: "length ys = n" using ys lz rb_le ra by simp
  have nth: "ys ! rb = xs ! ra" using rb_le by (simp add: ys nth_append)
  have rem: "take rb ys @ drop (Suc rb) ys = zs" using rb_le by (simp add: ys)
  have restore: "splice_insert zs (int ra) (xs ! ra) = xs"
    using ra splice_insert_removed [of ra xs] by (simp add: zs_def n_def)
  have "relativeStart b (length ys) = rb" by (simp add: ly rb_def)
  then show ?thesis
    using rb ra nth rem restore
    by (simp add: arrayMove_def Let_def ly)
qed

lemma arrayMove_mset: "arrayMove xs a b = Some ys \<Longrightarrow> mset ys = mset xs"
proof -
  assume mv: "arrayMove xs a b = Some ys"
  define k where "k = relativeStart a (length xs)"
  from mv have k: "k < length xs" by (auto simp: arrayMove_def Let_def k_def split: if_splits)
  define zs where "zs = take k xs @ drop (Suc k) xs"
  from mv obtain p where "ys = take p zs @ (xs ! k) # drop p zs"
    by (auto simp: arrayMove_def Let_def k_def [symmetric] zs_def splice_insert_def split: if_splits)
  then have "mset ys = mset (take p zs @ drop p zs) + {# xs ! k #}"
    by (simp del: append_take_drop_id)
  also have "\<dots> = mset zs + {# xs ! k #}" by (simp only: append_take_drop_id)
  also have "\<dots> = mset (take k xs @ (xs ! k) # drop (Suc k) xs)" by (simp add: zs_def)
  also have "\<dots> = mset xs" using k by (simp add: id_take_nth_drop [symmetric])
  finally show ?thesis .
qed

subsection \<open>Undo\<close>

lemma toggle_toggle: "toggle itemId (toggle itemId i) = i"
  by (simp add: toggle_def)

lemma map_items_roundtrip:
  assumes "\<And>c. c \<in> set cs \<Longrightarrow> cat_id c = cid \<Longrightarrow> G (F (items c)) = items c"
  shows "map (\<lambda>c. if cat_id c = cid then c\<lparr>items := G (items c)\<rparr> else c)
           (map (\<lambda>c. if cat_id c = cid then c\<lparr>items := F (items c)\<rparr> else c) cs) = cs"
  using assms by (induction cs) auto

lemma distinct_itemIds_items:
  "distinct (itemIds cs) \<Longrightarrow> c \<in> set cs \<Longrightarrow> distinct (map item_id (items c))"
  by (induction cs) (auto simp: itemIds_def)

lemma uniqueIds_items:
  "uniqueIds cs \<Longrightarrow> c \<in> set cs \<Longrightarrow> distinct (map item_id (items c))"
  using distinct_itemIds_items [of cs c] by (simp add: uniqueIds_def)

lemma uniqueIds_categories: "uniqueIds cs \<Longrightarrow> distinct (map cat_id cs)"
  by (simp add: uniqueIds_def categoryIds_def)

lemma undo_AddItem:
  assumes "uniqueIds (categories (handleAddItem now cid text due s))"
  shows "\<exists>s''. handleUndo (handleAddItem now cid text due s) = Some s''
           \<and> categories s'' = categories s \<and> undoAction s'' = None"
proof -
  let ?new = "\<lparr>item_id = ''item-'' @ decimal now, content = text, completed = False,
                dueDate = due, item_notes = None\<rparr>"
  have fresh: "filter (\<lambda>i. item_id i \<noteq> item_id ?new) (items c @ [?new]) = items c"
    if c: "c \<in> set (categories s)" "cat_id c = cid" for c
  proof -
    from c have "c\<lparr>items := items c @ [?new]\<rparr> \<in> set (categories (handleAddItem now cid text due s))"
      by (force simp: handleAddItem_def)
    from uniqueIds_items [OF assms this]
    have "item_id ?new \<notin> item_id ` set (items c)" by simp
    then have "\<forall>i \<in> set (items c). item_id i \<noteq> item_id ?new" by (metis imageI)
    then show ?thesis by (simp add: filter_id_conv)
  qed
  have "map (\<lambda>c. if cat_id c = cid
                 then c\<lparr>items := filter (\<lambda>i. item_id i \<noteq> item_id ?new) (items c)\<rparr> else c)
          (map (\<lambda>c. if cat_id c = cid then c\<lparr>items := items c @ [?new]\<rparr> else c) (categories s))
        = categories s"
    using fresh by (intro map_items_roundtrip [where F = "\<lambda>xs. xs @ [?new]"]) 
  then show ?thesis
    by (simp add: handleUndo_def handleAddItem_def undoCategories_def cong: if_cong)
qed

lemma undo_ToggleItem:
  "\<exists>s''. handleUndo (handleToggleItem cid iid s) = Some s''
         \<and> categories s'' = categories s \<and> undoAction s'' = None"
proof -
  have "map (\<lambda>c. if cat_id c = cid then c\<lparr>items := map (toggle iid) (items c)\<rparr> else c)
          (map (\<lambda>c. if cat_id c = cid then c\<lparr>items := map (toggle iid) (items c)\<rparr> else c) (categories s))
        = categories s"
    by (intro map_items_roundtrip) (simp add: o_def toggle_toggle)
  then show ?thesis
    by (simp add: handleUndo_def handleToggleItem_def undoCategories_def)
qed

lemma undo_AddCategory:
  assumes "uniqueIds (categories (handleAddCategory now name icon s))"
  shows "\<exists>s''. handleUndo (handleAddCategory now name icon s) = Some s''
           \<and> categories s'' = categories s \<and> undoAction s'' = None"
proof -
  from uniqueIds_categories [OF assms]
  have "''cat-'' @ decimal now \<notin> cat_id ` set (categories s)"
    by (simp add: handleAddCategory_def)
  then have "\<forall>c \<in> set (categories s). cat_id c \<noteq> ''cat-'' @ decimal now" by (metis imageI)
  then have "filter (\<lambda>c. cat_id c \<noteq> ''cat-'' @ decimal now) (categories s) = categories s"
    by (simp add: filter_id_conv)
  then show ?thesis
    by (simp add: handleUndo_def handleAddCategory_def undoCategories_def)
qed

lemma undo_DeleteCategory:
  assumes u: "uniqueIds (categories s)"
    and r: "records (DeleteCategory cid) s"
  shows "\<exists>s''. handleUndo (handleDeleteCategory cid s) = Some s''
           \<and> categories s'' = categories s \<and> undoAction s'' = None"
proof -
  let ?P = "\<lambda>c. cat_id c = cid"
  let ?k = "findIndex ?P (categories s)"
  from r obtain c0 where c0: "find ?P (categories s) = Some c0" by auto
  then have ne: "?k \<noteq> - 1" using findIndex_none [of ?P "categories s"] by auto
  from findIndex_found [OF ne] c0
  have k: "0 \<le> ?k" "cat_id (categories s ! nat ?k) = cid" "c0 = categories s ! nat ?k" by auto
  have lt: "nat ?k < length (categories s)"
    using findIndex_range [of ?P "categories s"] k(1) by simp
  have "filter (\<lambda>c. cat_id c \<noteq> cid) (categories s)
          = take (nat ?k) (categories s) @ drop (Suc (nat ?k)) (categories s)"
    using filter_key_nth [OF uniqueIds_categories [OF u] lt] k(2) by simp
  moreover have "int (nat ?k) = ?k" using k(1) by simp
  ultimately have "splice_insert (filter (\<lambda>c. cat_id c \<noteq> cid) (categories s)) ?k c0 = categories s"
    using splice_insert_removed [OF lt] k(3) by simp
  with c0 show ?thesis
    by (simp add: handleUndo_def handleDeleteCategory_def undoCategories_def Let_def)
qed


lemma same_key_same_element:
  "distinct (map f xs) \<Longrightarrow> x \<in> set xs \<Longrightarrow> y \<in> set xs \<Longrightarrow> f x = f y \<Longrightarrow> x = y"
  by (auto simp: distinct_map dest: inj_onD)

lemma find_key_exists: "x \<in> set xs \<Longrightarrow> P x \<Longrightarrow> \<exists>y. find P xs = Some y"
  by (induction xs) auto

lemma find_in_set: "find P xs = Some x \<Longrightarrow> x \<in> set xs \<and> P x"
  by (induction xs) (auto split: if_splits)

lemma undo_DeleteItem:
  assumes u: "uniqueIds (categories s)"
    and r: "records (DeleteItem cid iid) s"
  shows "\<exists>s''. handleUndo (handleDeleteItem cid iid s) = Some s''
           \<and> categories s'' = categories s \<and> undoAction s'' = None"
proof -
  let ?P = "\<lambda>c. cat_id c = cid"
  let ?Q = "\<lambda>i. item_id i = iid"
  from r obtain c0 where c0: "find ?P (categories s) = Some c0"
    by (auto split: option.splits)
  let ?k = "findIndex ?Q (items c0)"
  from r c0 have ne: "?k \<noteq> - 1" by simp
  from findIndex_found [OF ne]
  have k: "0 \<le> ?k" "item_id (items c0 ! nat ?k) = iid" by auto
  have lt: "nat ?k < length (items c0)"
    using findIndex_range [of ?Q "items c0"] k(1) by simp
  have c0_in: "c0 \<in> set (categories s)" using find_in_set [OF c0] by simp
  have "filter (\<lambda>i. item_id i \<noteq> iid) (items c0)
          = take (nat ?k) (items c0) @ drop (Suc (nat ?k)) (items c0)"
    using filter_key_nth [OF uniqueIds_items [OF u c0_in] lt] k(2) by simp
  moreover have "int (nat ?k) = ?k" using k(1) by simp
  ultimately have restore:
    "splice_insert (filter (\<lambda>i. item_id i \<noteq> iid) (items c0)) ?k (items c0 ! nat ?k) = items c0"
    using splice_insert_removed [OF lt] by simp
  have "map (\<lambda>c. if cat_id c = cid
                 then c\<lparr>items := splice_insert (items c) ?k (items c0 ! nat ?k)\<rparr> else c)
          (map (\<lambda>c. if cat_id c = cid
                     then c\<lparr>items := filter (\<lambda>i. item_id i \<noteq> iid) (items c)\<rparr> else c)
             (categories s))
        = categories s"
  proof (intro map_items_roundtrip [where F = "filter (\<lambda>i. item_id i \<noteq> iid)"])
    fix c assume "c \<in> set (categories s)" "cat_id c = cid"
    then have "c = c0"
      using find_unique_key [OF uniqueIds_categories [OF u] c0] by simp
    with restore
    show "splice_insert (filter (\<lambda>i. item_id i \<noteq> iid) (items c)) ?k (items c0 ! nat ?k) = items c"
      by simp
  qed
  with c0 ne show ?thesis
    by (simp add: handleUndo_def handleDeleteItem_def undoCategories_def Let_def cong: if_cong)
qed

lemma undo_UpdateItemNotes:
  assumes u: "uniqueIds (categories s)"
    and nd: "notesDefined (UpdateItemNotes cid iid n) s"
  shows "\<exists>s''. handleUndo (handleUpdateItemNotes cid iid n s) = Some s''
           \<and> categories s'' = categories s \<and> undoAction s'' = None"
proof -
  let ?P = "\<lambda>c. cat_id c = cid"
  let ?Q = "\<lambda>i. item_id i = iid"
  define prevNotes where "prevNotes =
    (case find ?P (categories s) of
       None \<Rightarrow> []
     | Some category \<Rightarrow>
         (case find ?Q (items category) of None \<Rightarrow> [] | Some item \<Rightarrow> notes_or_empty item))"
  have "map (\<lambda>c. if cat_id c = cid
                 then c\<lparr>items := map (setNotes iid prevNotes) (items c)\<rparr> else c)
          (map (\<lambda>c. if cat_id c = cid
                     then c\<lparr>items := map (setNotes iid n) (items c)\<rparr> else c)
             (categories s))
        = categories s"
  proof (intro map_items_roundtrip [where F = "map (setNotes iid n)"])
    fix c assume c: "c \<in> set (categories s)" "cat_id c = cid"
    then obtain c0 where c0: "find ?P (categories s) = Some c0"
      using find_key_exists [of c "categories s" ?P] by auto
    with c have [simp]: "c0 = c"
      using find_unique_key [OF uniqueIds_categories [OF u] c0] by simp
    have "setNotes iid prevNotes (setNotes iid n i) = i" if i: "i \<in> set (items c)" for i
    proof (cases "item_id i = iid")
      case False
      then show ?thesis by (simp add: setNotes_def)
    next
      case True
      with i obtain i0 where i0: "find ?Q (items c) = Some i0"
        using find_key_exists [of i "items c" ?Q] by auto
      with i True have "i0 = i"
        using find_unique_key [OF uniqueIds_items [OF u c(1)] i0] by simp
      moreover from nd c i True obtain m where "item_notes i = Some m"
        by (auto simp: list_all_iff)
      ultimately have "prevNotes = m" "item_notes i = Some m"
        using c0 i0 by (simp_all add: prevNotes_def notes_or_empty_def)
      with True show ?thesis by (simp add: setNotes_def)
    qed
    then show "map (setNotes iid prevNotes) (map (setNotes iid n) (items c)) = items c"
      by (simp add: map_idI)
  qed
  then show ?thesis
    by (simp add: handleUndo_def handleUpdateItemNotes_def undoCategories_def Let_def
        prevNotes_def cong: if_cong)
qed

lemma arrayMove_defined: "arrayMove xs a b = Some ys \<Longrightarrow> xs \<noteq> []"
  by (auto simp: arrayMove_def Let_def relativeStart_def split: if_splits)

lemma moveItems_inverse:
  assumes "moveItems cid a b cs = Some cs'"
    and "\<And>c. c \<in> set cs \<Longrightarrow> cat_id c = cid \<Longrightarrow>
           - 1 \<le> a \<and> a < int (length (items c)) \<and> - 1 \<le> b \<and> b < int (length (items c))"
  shows "moveItems cid b a cs' = Some cs"
  using assms
proof (induction cs arbitrary: cs')
  case Nil
  then show ?case by (simp add: moveItems_def)
next
  case (Cons c cs)
  show ?case
  proof (cases "cat_id c = cid")
    case False
    with Cons.prems(1) obtain ds where ds: "moveItems cid a b cs = Some ds" "cs' = c # ds"
      by (auto simp: moveItems_def split: option.splits)
    have "moveItems cid b a ds = Some cs"
    proof (rule Cons.IH [OF ds(1)])
      fix d assume "d \<in> set cs" "cat_id d = cid"
      then show "- 1 \<le> a \<and> a < int (length (items d)) \<and> - 1 \<le> b \<and> b < int (length (items d))"
        using Cons.prems(2) [of d] by simp
    qed
    with False ds show ?thesis by (simp add: moveItems_def)
  next
    case True
    with Cons.prems(1) obtain ys ds where mv: "arrayMove (items c) a b = Some ys"
      and ds: "moveItems cid a b cs = Some ds" "cs' = c\<lparr>items := ys\<rparr> # ds"
      by (auto simp: moveItems_def split: option.splits)
    have rest: "moveItems cid b a ds = Some cs"
    proof (rule Cons.IH [OF ds(1)])
      fix d assume "d \<in> set cs" "cat_id d = cid"
      then show "- 1 \<le> a \<and> a < int (length (items d)) \<and> - 1 \<le> b \<and> b < int (length (items d))"
        using Cons.prems(2) [of d] by simp
    qed
    from Cons.prems(2) [of c] True
    have rng: "- 1 \<le> a" "a < int (length (items c))" "- 1 \<le> b" "b < int (length (items c))"
      by auto
    have "items c \<noteq> []" using arrayMove_defined [OF mv] .
    then have "1 \<le> int (length (items c))" by (cases "items c") simp_all
    with rng have "- int (length (items c)) \<le> a" "- int (length (items c)) \<le> b" by linarith+
    with rng have "arrayMove ys b a = Some (items c)"
      by (intro arrayMove_inverse [OF mv])
    with True rest ds show ?thesis by (simp add: moveItems_def)
  qed
qed

lemma undo_DragEnd:
  assumes u: "uniqueIds (categories s)"
    and r: "records (DragEnd ev) s"
    and p: "handleDragEnd ev s = Some s'"
  shows "\<exists>s''. handleUndo s' = Some s'' \<and> categories s'' = categories s \<and> undoAction s'' = None"
proof -
  from r obtain ac where ac: "activeCategory s = Some ac" by auto
  then have ac_in: "ac \<in> set (categories s)"
    using find_in_set [of _ "categories s" ac] by (simp add: activeCategory_def)
  define a where "a = findIndex (\<lambda>i. item_id i = active ev) (items ac)"
  define b where "b = findIndex (\<lambda>i. Some (item_id i) = over ev) (items ac)"
  from p r ac obtain cs' where mv: "moveItems (cat_id ac) a b (categories s) = Some cs'"
    and s': "s' = s\<lparr>categories := cs', selectedItemId := None,
                    undoAction := Some (ITEM_DRAG (cat_id ac) a b)\<rparr>"
    by (auto simp: handleDragEnd_def Let_def a_def b_def)
  have "moveItems (cat_id ac) b a cs' = Some (categories s)"
  proof (rule moveItems_inverse [OF mv])
    fix c assume "c \<in> set (categories s)" "cat_id c = cat_id ac"
    then have "c = ac"
      using same_key_same_element [OF uniqueIds_categories [OF u] _ ac_in] by simp
    then show "- 1 \<le> a \<and> a < int (length (items c)) \<and> - 1 \<le> b \<and> b < int (length (items c))"
      using findIndex_range [of _ "items ac"] by (simp add: a_def b_def)
  qed
  then show ?thesis by (simp add: s' handleUndo_def undoCategories_def)
qed

text \<open>
  Claim C1, as the code has it. Take a store whose identifiers are unique, one of the
  seven operations in a state where it reaches its \<open>setUndoAction\<close> call, and let
  the store after the operation have unique identifiers too (the identifier made from
  the clock is new). If the operation is \<open>handleUpdateItemNotes\<close>, let the item have
  notes. Then \<open>handleUndo\<close>, called in the state after the operation, returns, the
  categories are those before the operation, and no UndoAction is left.
\<close>

theorem undo_reverses_operation:
  assumes "uniqueIds (categories s)"
    and "records e s"
    and "notesDefined e s"
    and "perform e s = Some s'"
    and "uniqueIds (categories s')"
  shows "\<exists>s''. handleUndo s' = Some s'' \<and> categories s'' = categories s \<and> undoAction s'' = None"
proof (cases e)
  case (AddItem now cid body due)
  with assms undo_AddItem [of now cid body due s] show ?thesis by auto
next
  case (DeleteItem cid iid)
  with assms undo_DeleteItem [of s cid iid] show ?thesis by auto
next
  case (ToggleItem cid iid)
  with assms undo_ToggleItem [of cid iid s] show ?thesis by auto
next
  case (UpdateItemNotes cid iid n)
  with assms undo_UpdateItemNotes [of s cid iid n] show ?thesis by auto
next
  case (DragEnd ev)
  with assms undo_DragEnd [of s ev s'] show ?thesis by auto
next
  case (AddCategory now name icon)
  with assms undo_AddCategory [of now name icon s] show ?thesis by auto
next
  case (DeleteCategory cid)
  with assms undo_DeleteCategory [of s cid] show ?thesis by auto
qed

text \<open>The theorem at a drag of the first item of the first category over the second.\<close>

theorem undo_reverses_operation_witness:
  "uniqueIds (categories initialState)
   \<and> records (DragEnd \<lparr>active = ''item-1'', over = Some ''item-2''\<rparr>) initialState
   \<and> notesDefined (DragEnd \<lparr>active = ''item-1'', over = Some ''item-2''\<rparr>) initialState
   \<and> perform (DragEnd \<lparr>active = ''item-1'', over = Some ''item-2''\<rparr>) initialState
       = Some (the (handleDragEnd \<lparr>active = ''item-1'', over = Some ''item-2''\<rparr> initialState))
   \<and> uniqueIds (categories (the (handleDragEnd \<lparr>active = ''item-1'', over = Some ''item-2''\<rparr> initialState)))
   \<and> (\<exists>s''. handleUndo (the (handleDragEnd \<lparr>active = ''item-1'', over = Some ''item-2''\<rparr> initialState)) = Some s''
          \<and> categories s'' = categories initialState \<and> undoAction s'' = None)"
proof -
  let ?ev = "\<lparr>active = ''item-1'', over = Some ''item-2''\<rparr>"
  have h1: "uniqueIds (categories initialState)" by code_simp
  have h2: "records (DragEnd ?ev) initialState" by code_simp
  have h3: "notesDefined (DragEnd ?ev) initialState" by simp
  have h4: "perform (DragEnd ?ev) initialState = Some (the (handleDragEnd ?ev initialState))"
    by code_simp
  have h5: "uniqueIds (categories (the (handleDragEnd ?ev initialState)))" by code_simp
  from undo_reverses_operation [OF h1 h2 h3 h4 h5] h1 h2 h3 h4 h5 show ?thesis by blast
qed

text \<open>
  Claim C1 as stated fails for \<open>handleUpdateItemNotes\<close> on an item without notes:
  \<open>prevNotes\<close> is recorded as the empty string, and undo leaves the item with the
  note \<open>''\<close> where it had none.
\<close>

theorem undo_notes_counterexample:
  "uniqueIds (categories initialState)
   \<and> records (UpdateItemNotes ''cat-1'' ''item-2'' ''bio'') initialState
   \<and> map_option categories (handleUndo (handleUpdateItemNotes ''cat-1'' ''item-2'' ''bio'' initialState))
       \<noteq> Some (categories initialState)"
  by code_simp

subsection \<open>Drag and drop\<close>

lemma those_map_Some: "(\<And>x. x \<in> set xs \<Longrightarrow> f x = Some (g x)) \<Longrightarrow> those (map f xs) = Some (map g xs)"
  by (induction xs) auto

lemma findIndex_exists: "x \<in> set xs \<Longrightarrow> P x \<Longrightarrow> 0 \<le> findIndex P xs"
proof -
  assume "x \<in> set xs" "P x"
  then have "find P xs \<noteq> None" using find_key_exists [of x xs P] by auto
  then have "findIndex P xs \<noteq> - 1" using findIndex_none [of P xs] by auto
  with findIndex_range [of P xs] show ?thesis by simp
qed

lemma arrayMove_in_range:
  "0 \<le> a \<Longrightarrow> a < int (length xs) \<Longrightarrow> \<exists>ys. arrayMove xs a b = Some ys"
  by (simp add: arrayMove_def Let_def relativeStart_def)

lemma moveItems_unique:
  assumes d: "distinct (map cat_id cs)" and ac: "ac \<in> set cs"
    and mv: "arrayMove (items ac) a b = Some ys"
  shows "moveItems (cat_id ac) a b cs = Some (map (\<lambda>c. if c = ac then c\<lparr>items := ys\<rparr> else c) cs)"
  unfolding moveItems_def
proof (rule those_map_Some)
  fix c assume c: "c \<in> set cs"
  show "(if cat_id c = cat_id ac
         then map_option (\<lambda>moved. c\<lparr>items := moved\<rparr>) (arrayMove (items c) a b) else Some c)
        = Some (if c = ac then c\<lparr>items := ys\<rparr> else c)"
  proof (cases "c = ac")
    case True
    with mv show ?thesis by simp
  next
    case False
    then have "cat_id c \<noteq> cat_id ac"
      using same_key_same_element [OF d c ac] by auto
    with False show ?thesis by simp
  qed
qed

text \<open>
  Claim C4, on a store whose category ids are distinct. Take a drag event whose
  \<open>active\<close> and \<open>over\<close> ids differ and are ids of items of the active category. Then
  \<open>handleDragEnd\<close> returns a store in which the active category has an item list
  with the same items, each as often as before (so of the same length), and every
  other category is as it was.
\<close>

theorem drag_permutes_items:
  assumes d: "distinct (categoryIds (categories s))"
    and ac: "activeCategory s = Some ac"
    and ov: "over ev = Some target" "active ev \<noteq> target"
    and ids: "active ev \<in> set (map item_id (items ac))" "target \<in> set (map item_id (items ac))"
  shows "\<exists>ys s'. handleDragEnd ev s = Some s'
           \<and> categories s' = map (\<lambda>c. if c = ac then c\<lparr>items := ys\<rparr> else c) (categories s)
           \<and> mset ys = mset (items ac) \<and> length ys = length (items ac)"
proof -
  define a where "a = findIndex (\<lambda>i. item_id i = active ev) (items ac)"
  define b where "b = findIndex (\<lambda>i. Some (item_id i) = over ev) (items ac)"
  from ids(1) obtain i where "i \<in> set (items ac)" "item_id i = active ev" by auto
  then have "0 \<le> a" unfolding a_def by (rule findIndex_exists)
  moreover have "a < int (length (items ac))"
    using findIndex_range [of _ "items ac"] by (simp add: a_def)
  ultimately obtain ys where mv: "arrayMove (items ac) a b = Some ys"
    using arrayMove_in_range by blast
  have ac_in: "ac \<in> set (categories s)"
    using ac find_in_set [of _ "categories s" ac] by (simp add: activeCategory_def)
  from d have "distinct (map cat_id (categories s))" by (simp add: categoryIds_def)
  from moveItems_unique [OF this ac_in mv]
  have run: "handleDragEnd ev s =
          Some (s\<lparr>categories := map (\<lambda>c. if c = ac then c\<lparr>items := ys\<rparr> else c) (categories s),
                  selectedItemId := None, undoAction := Some (ITEM_DRAG (cat_id ac) a b)\<rparr>)"
    using ac ov by (simp add: handleDragEnd_def Let_def a_def b_def)
  have perm: "mset ys = mset (items ac)" using arrayMove_mset [OF mv] .
  then have len: "length ys = length (items ac)" by (rule mset_eq_length)
  show ?thesis
    by (intro exI [of _ ys] exI conjI, rule run) (simp_all add: perm len)
qed

text \<open>
  The theorem at a drag of the first item of the first category over the second.
\<close>

theorem drag_permutes_items_witness:
  "distinct (categoryIds (categories initialState))
   \<and> activeCategory initialState = Some (categories initialState ! 0)
   \<and> over \<lparr>active = ''item-1'', over = Some ''item-2''\<rparr> = Some ''item-2''
   \<and> active \<lparr>active = ''item-1'', over = Some ''item-2''\<rparr> \<noteq> ''item-2''
   \<and> ''item-1'' \<in> set (map item_id (items (categories initialState ! 0)))
   \<and> ''item-2'' \<in> set (map item_id (items (categories initialState ! 0)))
   \<and> (\<exists>ys s'. handleDragEnd \<lparr>active = ''item-1'', over = Some ''item-2''\<rparr> initialState = Some s'
         \<and> categories s' = map (\<lambda>c. if c = categories initialState ! 0 then c\<lparr>items := ys\<rparr> else c)
                              (categories initialState)
         \<and> mset ys = mset (items (categories initialState ! 0))
         \<and> length ys = length (items (categories initialState ! 0)))"
proof -
  let ?ev = "\<lparr>active = ''item-1'', over = Some ''item-2''\<rparr>"
  let ?ac = "categories initialState ! 0"
  have h1: "distinct (categoryIds (categories initialState))" by code_simp
  have h2: "activeCategory initialState = Some ?ac" by code_simp
  have h3: "over ?ev = Some ''item-2''" by simp
  have h4: "active ?ev \<noteq> ''item-2''" by simp
  have h5: "active ?ev \<in> set (map item_id (items ?ac))" by code_simp
  have h6: "''item-2'' \<in> set (map item_id (items ?ac))" by code_simp
  from drag_permutes_items [OF h1 h2 h3 h4 h5 h6] h1 h2 h3 h4 h5 h6 show ?thesis by simp
qed

text \<open>
  Claim C4 as stated fails on a store where two categories have one id: the drag in
  the active category \<open>Musique\<close> reorders the items of \<open>Livres\<close> too, since
  \<open>handleDragEnd\<close> picks the categories to change by id.
\<close>

theorem drag_changes_category_with_same_id_counterexample:
  "activeCategory twoListsOneId = Some (categories twoListsOneId ! 3)
   \<and> ''item-6'' \<in> set (map item_id (items (categories twoListsOneId ! 3)))
   \<and> ''item-7'' \<in> set (map item_id (items (categories twoListsOneId ! 3)))
   \<and> cat_name (categories twoListsOneId ! 3) = Some ''Musique''
   \<and> cat_name (categories twoListsOneId ! 4) = Some ''Livres''
   \<and> map_option (\<lambda>s. categories s ! 4)
        (handleDragEnd \<lparr>active = ''item-6'', over = Some ''item-7''\<rparr> twoListsOneId)
       \<noteq> Some (categories twoListsOneId ! 4)"
  by code_simp

subsection \<open>The handler of the assistant\<close>

lemma findE_Some: "findE p xs = Inr (Some x) \<Longrightarrow> x \<in> set xs \<and> p x = Inr True"
  by (induction xs) (auto split: sum.splits if_splits)

lemma findByName_Some:
  "findByName B (Some n) cs = Inr (Some c) \<Longrightarrow>
     c \<in> set cs \<and> (\<exists>a. cat_name c = Some a \<and> toLowerCase B a = toLowerCase B n)"
  unfolding findByName_def
  by (drule findE_Some) (auto simp: sameName_def split: option.splits)

lemma findPos_lt: "findPos p xs = Inr (Some k) \<Longrightarrow> k < length xs"
  by (induction xs arbitrary: k) (auto split: sum.splits if_splits option.splits)

lemma categoryIds_update_items:
  "categoryIds (cs[p := (cs ! p)\<lparr>items := xs\<rparr>]) = categoryIds cs"
  by (induction cs arbitrary: p) (auto simp: categoryIds_def split: nat.splits)

lemma targetCategory_lt: "targetCategory B given cs = Inr (Some p) \<Longrightarrow> p < length cs"
  unfolding targetCategory_def by (rule findPos_lt)

lemma addOne_ids: "addOne B E k x cs = Inr cs' \<Longrightarrow> categoryIds cs' = categoryIds cs"
  by (auto simp: addOne_def categoryIds_update_items split: sum.splits option.splits)

lemma updateOne_ids: "updateOne B k x cs = Inr cs' \<Longrightarrow> categoryIds cs' = categoryIds cs"
  by (auto simp: updateOne_def Let_def categoryIds_update_items split: sum.splits option.splits if_splits)

lemma deleteOne_ids: "deleteOne B k x cs = Inr cs' \<Longrightarrow> categoryIds cs' = categoryIds cs"
  by (auto simp: deleteOne_def categoryIds_update_items split: sum.splits option.splits)

lemma forEachE_ids:
  assumes "\<And>k x cs cs'. f k x cs = Inr cs' \<Longrightarrow> categoryIds cs' = categoryIds cs"
  shows "(forEachE f k xs cs = Inl (e, cs') \<or> forEachE f k xs cs = Inr cs')
           \<Longrightarrow> categoryIds cs' = categoryIds cs"
proof (induction xs arbitrary: k cs)
  case Nil
  then show ?case by simp
next
  case (Cons x xs)
  show ?case
  proof (cases "f k x cs")
    case (Inl err)
    with Cons.prems show ?thesis by simp
  next
    case (Inr cs1)
    with Cons.prems have "forEachE f (Suc k) xs cs1 = Inl (e, cs') \<or> forEachE f (Suc k) xs cs1 = Inr cs'"
      by simp
    from Cons.IH [OF this] assms [OF Inr] show ?thesis by simp
  qed
qed

lemma looped_ids:
  assumes "\<And>k x cs cs'. f k x cs = Inr cs' \<Longrightarrow> categoryIds cs' = categoryIds cs"
  shows "case looped (forEachE f k xs cs) of
           Threw e cs' \<Rightarrow> categoryIds cs' = categoryIds cs
         | Applied cs' act \<Rightarrow> categoryIds cs' = categoryIds cs \<and> act = None"
proof (cases "forEachE f k xs cs")
  case (Inl a)
  then obtain e cs' where "forEachE f k xs cs = Inl (e, cs')" by (cases a) auto
  with forEachE_ids [of f k xs cs e cs', OF assms] show ?thesis by (simp add: looped_def)
next
  case (Inr cs')
  with forEachE_ids [of f k xs cs _ cs', OF assms] show ?thesis by (simp add: looped_def)
qed

lemma mapE_rename_ids:
  "mapE (\<lambda>c. case sameName B (cat_name c) n of
                 Inl e \<Rightarrow> Inl e
               | Inr b \<Rightarrow> Inr (if b then c\<lparr>cat_name := m\<rparr> else c)) cs = Inr cs'
     \<Longrightarrow> categoryIds cs' = categoryIds cs"
  by (induction cs arbitrary: cs') (auto simp: categoryIds_def split: sum.splits)

lemma filterE_filter: "filterE p xs = Inr ys \<Longrightarrow> ys = filter (\<lambda>x. p x = Inr True) xs"
  by (induction xs arbitrary: ys) (auto split: sum.splits)

lemma item_actions_keep_ids:
  assumes "action result \<notin> {''create_category'', ''delete_category'', ''merge_categories''}"
  shows "case applyAction B E result s of
           Threw e cs' \<Rightarrow> categoryIds cs' = categoryIds (categories s)
         | Applied cs' act \<Rightarrow> categoryIds cs' = categoryIds (categories s) \<and> act = None"
proof -
  let ?cs = "categories s"
  have add: "case case_add B E result ?cs of
           Threw e cs' \<Rightarrow> categoryIds cs' = categoryIds ?cs
         | Applied cs' act \<Rightarrow> categoryIds cs' = categoryIds ?cs \<and> act = None"
    using looped_ids [of "addOne B E", OF addOne_ids]
    by (simp add: case_add_def split: option.splits)
  have upd: "case case_update B result ?cs of
           Threw e cs' \<Rightarrow> categoryIds cs' = categoryIds ?cs
         | Applied cs' act \<Rightarrow> categoryIds cs' = categoryIds ?cs \<and> act = None"
    using looped_ids [of "updateOne B", OF updateOne_ids]
    by (simp add: case_update_def split: option.splits)
  have del: "case case_delete B result ?cs of
           Threw e cs' \<Rightarrow> categoryIds cs' = categoryIds ?cs
         | Applied cs' act \<Rightarrow> categoryIds cs' = categoryIds ?cs \<and> act = None"
    using looped_ids [of "deleteOne B", OF deleteOne_ids]
    by (simp add: case_delete_def categoryIds_update_items split: option.splits sum.splits)
  have ren: "case case_rename_category B result ?cs of
           Threw e cs' \<Rightarrow> categoryIds cs' = categoryIds ?cs
         | Applied cs' act \<Rightarrow> categoryIds cs' = categoryIds ?cs \<and> act = None"
    using mapE_rename_ids
    by (auto simp: case_rename_category_def split: option.splits sum.splits)
  consider (1) "action result = ''add''" | (2) "action result = ''update''"
    | (3) "action result = ''rename_category''" | (4) "action result = ''delete''"
    | (5) "action result \<notin> {''add'', ''update'', ''rename_category'', ''delete''}"
    by auto
  then show ?thesis
  proof cases
    case 1
    with add show ?thesis by (simp add: applyAction_def)
  next
    case 2
    with upd show ?thesis by (simp add: applyAction_def)
  next
    case 3
    with ren show ?thesis by (simp add: applyAction_def)
  next
    case 4
    with del show ?thesis by (simp add: applyAction_def)
  next
    case 5
    with assms show ?thesis by (simp add: applyAction_def)
  qed
qed

lemma threw_keeps_ids:
  assumes "applyAction B E result s = Threw e cs"
  shows "categoryIds cs = categoryIds (categories s)"
proof -
  consider (create) "action result = ''create_category''"
    | (delete) "action result = ''delete_category''"
    | (merge) "action result = ''merge_categories''"
    | (other) "action result \<notin> {''create_category'', ''delete_category'', ''merge_categories''}"
    by auto
  then show ?thesis
  proof cases
    case create
    then have "applyAction B E result s = case_create_category B E result (categories s)"
      by (simp add: applyAction_def)
    with assms show ?thesis
      by (auto simp: case_create_category_def Let_def split: option.splits sum.splits if_splits)
  next
    case delete
    then have "applyAction B E result s
                 = case_delete_category B result (activeCategory s) (categories s)"
      by (simp add: applyAction_def)
    with assms show ?thesis
      by (auto simp: case_delete_category_def split: option.splits sum.splits if_splits)
  next
    case merge
    then have "applyAction B E result s = case_merge_categories B result (categories s)"
      by (simp add: applyAction_def)
    with assms show ?thesis
      by (auto simp: case_merge_categories_def split: option.splits sum.splits if_splits)
  next
    case other
    from item_actions_keep_ids [where result = result and B = B and E = E and s = s, OF other] assms
    show ?thesis by simp
  qed
qed

lemma inPlace_Some: "length cs = length current \<Longrightarrow> inPlace Some cs current = cs"
  by (rule nth_equalityI) (simp_all add: inPlace_def)

lemma sendMessage_sent:
  "requestSent B text s \<Longrightarrow>
     sendMessage B E text s =
       s\<lparr>messages := messages s @
             [\<lparr>msg_id = ''msg-'' @ decimal (t_user E), msg_text = text, sender = User\<rparr>],
          isLoadingAI := True\<rparr>"
  by (simp add: requestSent_def sendMessage_def Let_def)

lemma sendMessage_store:
  "categories (sendMessage B E text s) = categories s
   \<and> activeCategoryId (sendMessage B E text s) = activeCategoryId s
   \<and> confirmAction (sendMessage B E text s) = confirmAction s
   \<and> undoAction (sendMessage B E text s) = undoAction s"
  by (simp add: sendMessage_def Let_def)

text \<open>
  When nothing runs while the request is pending, the call is one step from the
  state it was made in.
\<close>

lemma handleSendMessage_undisturbed:
  "handleSendMessage B E text undisturbed reply s =
     (if trim B text = [] \<or> isLoadingAI s then s
      else
        (let userMessage = \<lparr>msg_id = ''msg-'' @ decimal (t_user E), msg_text = text, sender = User\<rparr>;
             s1 = s\<lparr>messages := messages s @ [userMessage], isLoadingAI := True\<rparr>
         in if \<not> aiConfigured s
            then s1\<lparr>messages := messages s1 @ [aiSays E mockText], isLoadingAI := False\<rparr>
            else (case reply of
                    Rejected \<Rightarrow> catchBlock E s1
                  | Unparsable \<Rightarrow> catchBlock E s1
                  | Parsed result \<Rightarrow>
                      (let s2 = s1\<lparr>undoAction := None\<rparr>
                       in case applyAction B E result s of
                            Threw e cs \<Rightarrow> catchBlock E (s2\<lparr>categories := cs\<rparr>)
                          | Applied cs act \<Rightarrow>
                              s2\<lparr>categories := cs,
                                 activeCategoryId :=
                                   (case act of None \<Rightarrow> activeCategoryId s2 | Some a \<Rightarrow> a),
                                 messages := messages s2 @ [aiSays E (response result)],
                                 isLoadingAI := False\<rparr>))))"
proof (cases "requestSent B text s")
  case False
  then show ?thesis
    by (auto simp: handleSendMessage_def requestSent_def sendMessage_def Let_def)
next
  case True
  note sent = sendMessage_sent [OF True, of E]
  from True have g: "trim B text \<noteq> []" "\<not> isLoadingAI s" "aiConfigured s"
    by (simp_all add: requestSent_def)
  show ?thesis
  proof (cases reply)
    case Rejected
    with True g show ?thesis
      by (simp add: handleSendMessage_def receiveReply_def undisturbed_def sent Let_def)
  next
    case Unparsable
    with True g show ?thesis
      by (simp add: handleSendMessage_def receiveReply_def undisturbed_def sent Let_def)
  next
    case (Parsed result)
    show ?thesis
    proof (cases "applyAction B E result s")
      case (Threw e cs)
      from threw_keeps_ids [OF Threw] have "length cs = length (categories s)"
        by (metis categoryIds_def length_map)
      then have "inPlace Some cs (categories s) = cs" by (rule inPlace_Some)
      with True g Parsed Threw show ?thesis
        by (simp add: handleSendMessage_def receiveReply_def undisturbed_def sent Let_def)
    next
      case (Applied cs act)
      with True g Parsed show ?thesis
        by (simp add: handleSendMessage_def receiveReply_def undisturbed_def sent Let_def)
    qed
  qed
qed

subsection \<open>Merging categories\<close>

text \<open>
  Claim C3 asks of a merge that the destination gets the items of the source after
  its own, that the source goes, and that every other category stays as it is.
\<close>

lemma merge_result:
  fixes cs :: "Category list"
  assumes d: "distinct (map cat_id cs)" and src: "src \<in> set cs" and dst: "dst \<in> set cs"
    and ne: "src \<noteq> dst"
  shows "filter (\<lambda>c. cat_id c \<noteq> cat_id src)
           (map (\<lambda>c. if cat_id c = cat_id dst then c\<lparr>items := items c @ items src\<rparr> else c) cs)
         = map (\<lambda>c. if c = dst then c\<lparr>items := items dst @ items src\<rparr> else c)
             (filter (\<lambda>c. c \<noteq> src) cs)"
proof -
  have key: "cat_id c = cat_id x \<longleftrightarrow> c = x" if "c \<in> set cs" "x \<in> set cs" for c x
    using same_key_same_element [OF d that] by auto
  define upd where "upd = (\<lambda>c::Category. if cat_id c = cat_id dst then c\<lparr>items := items c @ items src\<rparr> else c)"
  have pres: "cat_id (upd c) = cat_id c" for c by (simp add: upd_def)
  have "filter (\<lambda>c. cat_id c \<noteq> cat_id src) (map upd cs)
        = map upd (filter (\<lambda>c. cat_id c \<noteq> cat_id src) cs)"
    by (simp add: filter_map o_def pres)
  also have "filter (\<lambda>c. cat_id c \<noteq> cat_id src) cs = filter (\<lambda>c. c \<noteq> src) cs"
    using key [OF _ src] by (intro filter_cong) auto
  also have "map upd (filter (\<lambda>c. c \<noteq> src) cs)
             = map (\<lambda>c. if c = dst then c\<lparr>items := items dst @ items src\<rparr> else c)
                 (filter (\<lambda>c. c \<noteq> src) cs)"
    using key [OF _ dst] by (intro map_cong) (auto simp: upd_def)
  finally show ?thesis by (simp add: upd_def)
qed

text \<open>
  Claim C3, on a store with distinct category ids and with nothing run while the
  request is pending. The two names of a \<open>merge_categories\<close> response resolve (\<open>find\<close>,
  comparing lowercase forms) to the categories \<open>src\<close> and \<open>dst\<close>, the names being
  different in lowercase. Then in the store after \<open>handleSendMessage\<close> the destination
  has its old items followed by the items of the source, the source is gone, and
  every other category is unchanged and in its place.
\<close>

theorem merge_categories_moves_items:
  assumes guard: "trim B text \<noteq> []" "\<not> isLoadingAI s" "aiConfigured s"
    and act: "action result = ''merge_categories''" "category_details result = Some d"
      "cd_sourceName d = Some sourceName" "cd_destinationName d = Some destinationName"
    and d: "distinct (categoryIds (categories s))"
    and src: "findByName B (Some sourceName) (categories s) = Inr (Some src)"
    and dst: "findByName B (Some destinationName) (categories s) = Inr (Some dst)"
    and ne: "toLowerCase B sourceName \<noteq> toLowerCase B destinationName"
  shows "categories (handleSendMessage B E text undisturbed (Parsed result) s)
         = map (\<lambda>c. if c = dst then c\<lparr>items := items dst @ items src\<rparr> else c)
             (filter (\<lambda>c. c \<noteq> src) (categories s))"
proof -
  from findByName_Some [OF src] findByName_Some [OF dst] ne
  have in_set: "src \<in> set (categories s)" "dst \<in> set (categories s)" and diff: "src \<noteq> dst"
    by auto
  from d have d': "distinct (map cat_id (categories s))" by (simp add: categoryIds_def)
  have "applyAction B E result s =
          Applied (map (\<lambda>c. if c = dst then c\<lparr>items := items dst @ items src\<rparr> else c)
                     (filter (\<lambda>c. c \<noteq> src) (categories s))) None"
    using act src dst merge_result [OF d' in_set diff]
    by (simp add: applyAction_def case_merge_categories_def)
  with guard show ?thesis by (simp add: handleSendMessage_undisturbed Let_def)
qed

text \<open>
  The theorem on the initial store: \<open>Achats\<close> merged into the to-do category.
\<close>

theorem merge_categories_moves_items_witness:
  "trim ascii_builtins ''fusionne'' \<noteq> [] \<and> \<not> isLoadingAI initialState \<and> aiConfigured initialState
   \<and> action mergeExample = ''merge_categories''
   \<and> category_details mergeExample = Some (the (category_details mergeExample))
   \<and> cd_sourceName (the (category_details mergeExample)) = Some ''ACHATS''
   \<and> cd_destinationName (the (category_details mergeExample)) = Some ([CHR 0xC3, CHR 0x80] @ '' faire'')
   \<and> distinct (categoryIds (categories initialState))
   \<and> findByName ascii_builtins (Some ''ACHATS'') (categories initialState)
        = Inr (Some (categories initialState ! 0))
   \<and> findByName ascii_builtins (Some ([CHR 0xC3, CHR 0x80] @ '' faire'')) (categories initialState)
        = Inr (Some (categories initialState ! 1))
   \<and> toLowerCase ascii_builtins ''ACHATS'' \<noteq> toLowerCase ascii_builtins ([CHR 0xC3, CHR 0x80] @ '' faire'')
   \<and> categories (handleSendMessage ascii_builtins clock0 ''fusionne'' undisturbed (Parsed mergeExample) initialState)
        = map (\<lambda>c. if c = categories initialState ! 1
                     then c\<lparr>items := items (categories initialState ! 1) @ items (categories initialState ! 0)\<rparr>
                     else c)
            (filter (\<lambda>c. c \<noteq> categories initialState ! 0) (categories initialState))"
proof -
  let ?d = "the (category_details mergeExample)"
  let ?dn = "[CHR 0xC3, CHR 0x80] @ '' faire''"
  have g1: "trim ascii_builtins ''fusionne'' \<noteq> []" by code_simp
  have g2: "\<not> isLoadingAI initialState" by code_simp
  have g3: "aiConfigured initialState" by code_simp
  have a1: "action mergeExample = ''merge_categories''" by code_simp
  have a2: "category_details mergeExample = Some ?d" by code_simp
  have a3: "cd_sourceName ?d = Some ''ACHATS''" by code_simp
  have a4: "cd_destinationName ?d = Some ?dn" by code_simp
  have d: "distinct (categoryIds (categories initialState))" by code_simp
  have s: "findByName ascii_builtins (Some ''ACHATS'') (categories initialState)
             = Inr (Some (categories initialState ! 0))" by code_simp
  have t: "findByName ascii_builtins (Some ?dn) (categories initialState)
             = Inr (Some (categories initialState ! 1))" by code_simp
  have n: "toLowerCase ascii_builtins ''ACHATS'' \<noteq> toLowerCase ascii_builtins ?dn" by code_simp
  from merge_categories_moves_items [OF g1 g2 g3 a1 a2 a3 a4 d s t n, of clock0]
    g1 g2 g3 a1 a2 a3 a4 d s t n
  show ?thesis by blast
qed

text \<open>
  Claim C3 as stated fails in two ways. On the store where two categories got the
  id \<open>cat-5\<close>, merging \<open>Musique\<close> into \<open>Achats\<close> also removes \<open>Livres\<close>, which is neither
  the source nor the destination. And when an item is added to the third category
  while the request is pending, the merge of the first category into the second
  writes the captured array, and the third category loses the item.
\<close>

theorem merge_changes_other_categories_counterexample:
  "findByName ascii_builtins (Some ''musique'') (categories sameClockState)
     = Inr (Some (categories sameClockState ! 3))
   \<and> findByName ascii_builtins (Some ''achats'') (categories sameClockState)
     = Inr (Some (categories sameClockState ! 0))
   \<and> cat_name (categories sameClockState ! 4) = Some ''Livres''
   \<and> categories sameClockState ! 4 \<notin> set (categories
        (handleSendMessage ascii_builtins clock0 ''fusionne'' undisturbed (Parsed mergeMusique) sameClockState))
   \<and> cat_id (categories (during addItemPending (sendMessage ascii_builtins clock0 ''fusionne'' initialState)) ! 2)
       = ''cat-3''
   \<and> cat_id (categories (handleSendMessage ascii_builtins clock0 ''fusionne'' addItemPending
             (Parsed mergeExample) initialState) ! 1) = ''cat-3''
   \<and> categories (during addItemPending (sendMessage ascii_builtins clock0 ''fusionne'' initialState)) ! 2
       \<noteq> categories (handleSendMessage ascii_builtins clock0 ''fusionne'' addItemPending
             (Parsed mergeExample) initialState) ! 1"
  by code_simp

subsection \<open>Responses that change no category\<close>

text \<open>
  Claim C10 holds when nothing runs while the request is pending: a response whose
  action is none of the seven the \<open>switch\<close> handles leaves the state as it was but for
  the two chat messages and the cleared UndoAction.
\<close>

lemma unhandled_action_changes_no_category:
  assumes "trim B text \<noteq> []" and "\<not> isLoadingAI s" and "aiConfigured s"
    and "action result \<notin> {''add'', ''update'', ''create_category'', ''rename_category'',
                            ''delete_category'', ''merge_categories'', ''delete''}"
  shows "handleSendMessage B E text undisturbed (Parsed result) s =
           s\<lparr>messages := messages s @
                 [\<lparr>msg_id = ''msg-'' @ decimal (t_user E), msg_text = text, sender = User\<rparr>,
                  \<lparr>msg_id = ''msg-'' @ decimal (t_reply E + 1), msg_text = response result, sender = AI\<rparr>],
              undoAction := None\<rparr>"
proof -
  from assms(4) have "applyAction B E result s = Applied (categories s) None"
    by (simp add: applyAction_def)
  with assms(1-3) show ?thesis
    by (simp add: handleSendMessage_undisturbed Let_def aiSays_def)
qed

text \<open>
  Claim C10 on the code. The message is sent from the initial state; while the
  request is pending the first item of the first category is toggled; the reply is a
  \<open>chat\<close> response. \<open>setCategories\<close> then writes the array captured when the message was
  sent: the item is not completed any more, so the reply changed a category.
\<close>

theorem stale_reply_reverts_toggle:
  "requestSent ascii_builtins ''salut'' initialState
   \<and> action chatExample = ''chat''
   \<and> map completed (items (categories (during togglePending
         (sendMessage ascii_builtins clock0 ''salut'' initialState)) ! 0)) = [True, False]
   \<and> map completed (items (categories
         (handleSendMessage ascii_builtins clock0 ''salut'' togglePending (Parsed chatExample) initialState) ! 0))
       = [False, False]
   \<and> categories (handleSendMessage ascii_builtins clock0 ''salut'' togglePending (Parsed chatExample) initialState)
       \<noteq> categories (during togglePending (sendMessage ascii_builtins clock0 ''salut'' initialState))"
  by code_simp

subsection \<open>Failures\<close>

text \<open>
  Claim C9. A message is sent. If the text of the response does not parse,
  \<open>handleSendMessage\<close> returns the state with the user's message and one apology
  from the sender \<open>ai\<close> appended, nothing else changed. If the response parses and
  applying its action throws, the same two messages are appended; the UndoAction
  was cleared before the \<open>switch\<close>, and the categories are the objects as the
  iterations before the exception left them. Nothing is raised: the handler is a
  total function to states. The first two parts say this when nothing runs while
  the request is pending, the last two for any handlers run in between: the apology
  is then appended to the state they left.
\<close>

theorem failed_response_gets_apology:
  assumes "trim B text \<noteq> []" and "\<not> isLoadingAI s" and "aiConfigured s"
  shows "handleSendMessage B E text undisturbed Unparsable s =
           s\<lparr>messages := messages s @
                 [\<lparr>msg_id = ''msg-'' @ decimal (t_user E), msg_text = text, sender = User\<rparr>,
                  \<lparr>msg_id = ''msg-'' @ decimal (t_reply E + 1), msg_text = apologyText, sender = AI\<rparr>]\<rparr>
         \<and> (applyAction B E result s = Threw e cs \<longrightarrow>
              handleSendMessage B E text undisturbed (Parsed result) s =
                s\<lparr>categories := cs, undoAction := None,
                  messages := messages s @
                    [\<lparr>msg_id = ''msg-'' @ decimal (t_user E), msg_text = text, sender = User\<rparr>,
                     \<lparr>msg_id = ''msg-'' @ decimal (t_reply E + 1), msg_text = apologyText, sender = AI\<rparr>]\<rparr>)
         \<and> handleSendMessage B E text W Unparsable s =
             (during W (sendMessage B E text s))
               \<lparr>messages := messages (during W (sendMessage B E text s)) @
                   [\<lparr>msg_id = ''msg-'' @ decimal (t_reply E + 1), msg_text = apologyText, sender = AI\<rparr>],
                isLoadingAI := False\<rparr>
         \<and> (applyAction B E result s = Threw e cs \<longrightarrow>
              handleSendMessage B E text W (Parsed result) s =
                (during W (sendMessage B E text s))
                  \<lparr>categories := inPlace (shared W) cs (categories (during W (sendMessage B E text s))),
                   undoAction := None,
                   messages := messages (during W (sendMessage B E text s)) @
                     [\<lparr>msg_id = ''msg-'' @ decimal (t_reply E + 1), msg_text = apologyText, sender = AI\<rparr>],
                   isLoadingAI := False\<rparr>)"
proof -
  from assms have sent: "requestSent B text s" by (simp add: requestSent_def)
  have 1: "handleSendMessage B E text undisturbed Unparsable s =
           s\<lparr>messages := messages s @
                 [\<lparr>msg_id = ''msg-'' @ decimal (t_user E), msg_text = text, sender = User\<rparr>,
                  \<lparr>msg_id = ''msg-'' @ decimal (t_reply E + 1), msg_text = apologyText, sender = AI\<rparr>]\<rparr>"
    using assms by (simp add: handleSendMessage_undisturbed Let_def aiSays_def catchBlock_def)
  have 2: "applyAction B E result s = Threw e cs \<longrightarrow>
              handleSendMessage B E text undisturbed (Parsed result) s =
                s\<lparr>categories := cs, undoAction := None,
                  messages := messages s @
                    [\<lparr>msg_id = ''msg-'' @ decimal (t_user E), msg_text = text, sender = User\<rparr>,
                     \<lparr>msg_id = ''msg-'' @ decimal (t_reply E + 1), msg_text = apologyText, sender = AI\<rparr>]\<rparr>"
    using assms by (simp add: handleSendMessage_undisturbed Let_def aiSays_def catchBlock_def)
  have 3: "handleSendMessage B E text W Unparsable s =
             (during W (sendMessage B E text s))
               \<lparr>messages := messages (during W (sendMessage B E text s)) @
                   [\<lparr>msg_id = ''msg-'' @ decimal (t_reply E + 1), msg_text = apologyText, sender = AI\<rparr>],
                isLoadingAI := False\<rparr>"
    using sent by (simp add: handleSendMessage_def receiveReply_def aiSays_def catchBlock_def)
  have 4: "applyAction B E result s = Threw e cs \<longrightarrow>
              handleSendMessage B E text W (Parsed result) s =
                (during W (sendMessage B E text s))
                  \<lparr>categories := inPlace (shared W) cs (categories (during W (sendMessage B E text s))),
                   undoAction := None,
                   messages := messages (during W (sendMessage B E text s)) @
                     [\<lparr>msg_id = ''msg-'' @ decimal (t_reply E + 1), msg_text = apologyText, sender = AI\<rparr>],
                   isLoadingAI := False\<rparr>"
    using sent by (simp add: handleSendMessage_def receiveReply_def aiSays_def catchBlock_def Let_def)
  from 1 2 3 4 show ?thesis by (intro conjI)
qed

text \<open>
  The theorem on the initial state: a rename without a name throws a TypeError.
\<close>

theorem failed_response_gets_apology_witness:
  "trim ascii_builtins ''renomme'' \<noteq> [] \<and> \<not> isLoadingAI initialState \<and> aiConfigured initialState
   \<and> applyAction ascii_builtins clock0 brokenRename initialState = Threw TypeError (categories initialState)
   \<and> handleSendMessage ascii_builtins clock0 ''renomme'' undisturbed Unparsable initialState =
        initialState\<lparr>messages := messages initialState @
            [\<lparr>msg_id = ''msg-'' @ decimal (t_user clock0), msg_text = ''renomme'', sender = User\<rparr>,
             \<lparr>msg_id = ''msg-'' @ decimal (t_reply clock0 + 1), msg_text = apologyText, sender = AI\<rparr>]\<rparr>
   \<and> handleSendMessage ascii_builtins clock0 ''renomme'' undisturbed (Parsed brokenRename) initialState =
        initialState\<lparr>categories := categories initialState, undoAction := None,
          messages := messages initialState @
            [\<lparr>msg_id = ''msg-'' @ decimal (t_user clock0), msg_text = ''renomme'', sender = User\<rparr>,
             \<lparr>msg_id = ''msg-'' @ decimal (t_reply clock0 + 1), msg_text = apologyText, sender = AI\<rparr>]\<rparr>
   \<and> handleSendMessage ascii_builtins clock0 ''renomme'' togglePending (Parsed brokenRename) initialState =
        (during togglePending (sendMessage ascii_builtins clock0 ''renomme'' initialState))
          \<lparr>categories := inPlace (shared togglePending) (categories initialState)
             (categories (during togglePending (sendMessage ascii_builtins clock0 ''renomme'' initialState))),
           undoAction := None,
           messages := messages (during togglePending (sendMessage ascii_builtins clock0 ''renomme'' initialState)) @
             [\<lparr>msg_id = ''msg-'' @ decimal (t_reply clock0 + 1), msg_text = apologyText, sender = AI\<rparr>],
           isLoadingAI := False\<rparr>"
proof -
  have g1: "trim ascii_builtins ''renomme'' \<noteq> []" by code_simp
  have g2: "\<not> isLoadingAI initialState" by code_simp
  have g3: "aiConfigured initialState" by code_simp
  have t: "applyAction ascii_builtins clock0 brokenRename initialState
             = Threw TypeError (categories initialState)" by code_simp
  from failed_response_gets_apology [OF g1 g2 g3, of clock0 brokenRename TypeError "categories initialState" togglePending]
    g1 g2 g3 t
  show ?thesis by blast
qed

subsection \<open>Deleting a category\<close>




lemma activeCategory_in: "activeCategory s = Some ac \<Longrightarrow> ac \<in> set (categories s)"
  using find_in_set [of _ "categories s" ac] by (simp add: activeCategory_def)




subsection \<open>Unique identifiers\<close>

text \<open>
  Claim C5 on the code. The initial store has unique identifiers. \<open>handleAddCategory\<close>
  is called twice while \<open>Date.now()\<close> returns the same number: both new categories
  get the id \<open>cat-5\<close>, and the category ids are not pairwise distinct any more.
\<close>

theorem same_clock_value_gives_same_id:
  "uniqueIds (categories initialState)
   \<and> categoryIds (categories sameClockState) = [''cat-1'', ''cat-2'', ''cat-3'', ''cat-5'', ''cat-5'']
   \<and> \<not> uniqueIds (categories sameClockState)"
  by code_simp

subsection \<open>The active category\<close>

lemma activeOk_resolves: "activeOk s = resolves (activeCategoryId s) (categories s)"
  by (simp add: activeOk_def resolves_def)

lemma resolves_firstId: "resolves (firstId cs) cs"
  by (cases cs) (simp_all add: resolves_def firstId_def categoryIds_def)

lemma resolves_same_ids: "categoryIds cs' = categoryIds cs \<Longrightarrow> resolves a cs' = resolves a cs"
  by (cases a) (simp_all add: resolves_def)

lemma reselect_resolves: "activeOk (reselect s)"
proof (cases "categories s")
  case Nil
  then show ?thesis
    by (cases "activeCategoryId s") (auto simp: reselect_def activeOk_def categoryIds_def)
next
  case (Cons c cs)
  then show ?thesis
    by (cases "activeCategoryId s") (auto simp: reselect_def activeOk_def categoryIds_def)
qed

lemma handleAddCategory_resolves: "activeOk (handleAddCategory now name icon s)"
  by (simp add: handleAddCategory_def activeOk_def categoryIds_def Let_def)

lemma handleDeleteCategory_resolves:
  assumes "activeOk s"
  shows "activeOk (handleDeleteCategory categoryId s)"
proof (cases "find (\<lambda>c. cat_id c = categoryId) (categories s)")
  case None
  with assms show ?thesis by (simp add: handleDeleteCategory_def)
next
  case (Some c)
  show ?thesis
  proof (cases "activeCategoryId s = Some categoryId")
    case True
    with Some show ?thesis
      using resolves_firstId [of "filter (\<lambda>c. cat_id c \<noteq> categoryId) (categories s)"]
      by (simp add: handleDeleteCategory_def Let_def activeOk_resolves firstId_def)
  next
    case False
    with Some assms show ?thesis
      by (auto simp: handleDeleteCategory_def Let_def activeOk_def categoryIds_def
          split: option.splits)
  qed
qed

lemma create_category_resolves:
  "case case_create_category B E result cs of
     Threw e cs' \<Rightarrow> cs' = cs
   | Applied cs' act \<Rightarrow> (act = None \<and> cs' = cs) \<or> (\<exists>a. act = Some (Some a) \<and> a \<in> set (categoryIds cs'))"
  by (simp add: case_create_category_def Let_def categoryIds_def split: option.splits sum.splits)

lemma activeCategory_None: "activeOk s \<Longrightarrow> activeCategory s = None \<Longrightarrow> activeCategoryId s = None"
  by (cases "activeCategoryId s")
     (auto simp: activeOk_def activeCategory_def categoryIds_def find_None_iff)

lemma delete_category_resolves:
  assumes ok: "activeOk s"
  shows "case case_delete_category B result (activeCategory s) (categories s) of
     Threw e cs' \<Rightarrow> cs' = categories s
   | Applied cs' act \<Rightarrow> resolves (case act of None \<Rightarrow> activeCategoryId s | Some a \<Rightarrow> a) cs'"
proof (cases "category_details result")
  case None
  with ok show ?thesis by (simp add: case_delete_category_def activeOk_resolves)
next
  case (Some d)
  let ?p = "\<lambda>c. case sameName B (cat_name c) (cd_name d) of Inl e \<Rightarrow> Inl e | Inr b \<Rightarrow> Inr (\<not> b)"
  show ?thesis
  proof (cases "filterE ?p (categories s)")
    case (Inl e)
    with Some show ?thesis by (simp add: case_delete_category_def)
  next
    case (Inr remaining)
    note rem = filterE_filter [OF Inr]
    show ?thesis
    proof (cases "activeCategory s")
      case None
      from activeCategory_None [OF ok None] Some Inr None show ?thesis
        by (simp add: case_delete_category_def resolves_def split: option.splits)
    next
      case Some2: (Some ac)
      have ac_in: "ac \<in> set (categories s)" using activeCategory_in [OF Some2] .
      from Some2 have "find (\<lambda>c. Some (cat_id c) = activeCategoryId s) (categories s) = Some ac"
        by (simp add: activeCategory_def)
      from find_in_set [OF this] have ac_id: "activeCategoryId s = Some (cat_id ac)" by simp
      show ?thesis
      proof (cases "sameName B (cat_name ac) (cd_name d)")
        case (Inl e)
        with Some Inr Some2 show ?thesis by (simp add: case_delete_category_def)
      next
        case same: (Inr b)
        show ?thesis
        proof (cases b)
          case True
          with Some Inr Some2 same resolves_firstId [of remaining] show ?thesis
            by (simp add: case_delete_category_def)
        next
          case False
          with same have "?p ac = Inr True" by simp
          with ac_in rem have "ac \<in> set remaining" by simp
          then have "resolves (activeCategoryId s) remaining"
            by (auto simp: ac_id resolves_def categoryIds_def)
          with Some Inr Some2 same False show ?thesis
            by (simp add: case_delete_category_def)
        qed
      qed
    qed
  qed
qed

lemma applied_resolves:
  assumes ok: "activeOk s" and nm: "action result \<noteq> ''merge_categories''"
  shows "case applyAction B E result s of
           Threw e cs' \<Rightarrow> resolves (activeCategoryId s) cs'
         | Applied cs' act \<Rightarrow> resolves (case act of None \<Rightarrow> activeCategoryId s | Some a \<Rightarrow> a) cs'"
proof -
  from ok have ok': "resolves (activeCategoryId s) (categories s)" by (simp add: activeOk_resolves)
  consider (create) "action result = ''create_category''"
    | (delete) "action result = ''delete_category''"
    | (other) "action result \<notin> {''create_category'', ''delete_category'', ''merge_categories''}"
    using nm by auto
  then show ?thesis
  proof cases
    case create
    then have eq: "applyAction B E result s = case_create_category B E result (categories s)"
      by (simp add: applyAction_def)
    show ?thesis
    proof (cases "case_create_category B E result (categories s)")
      case (Threw e cs')
      with create_category_resolves [where cs = "categories s" and B = B and E = E and result = result]
        ok' show ?thesis by (simp add: eq)
    next
      case (Applied cs' act)
      with create_category_resolves [where cs = "categories s" and B = B and E = E and result = result]
      have "(act = None \<and> cs' = categories s) \<or> (\<exists>a. act = Some (Some a) \<and> a \<in> set (categoryIds cs'))"
        by simp
      then have "resolves (case act of None \<Rightarrow> activeCategoryId s | Some a \<Rightarrow> a) cs'"
        using ok' by (auto simp: resolves_def)
      with Applied show ?thesis by (simp add: eq)
    qed
  next
    case delete
    then have eq: "applyAction B E result s
                     = case_delete_category B result (activeCategory s) (categories s)"
      by (simp add: applyAction_def)
    show ?thesis
    proof (cases "case_delete_category B result (activeCategory s) (categories s)")
      case (Threw e cs')
      with delete_category_resolves [OF ok, where B = B and result = result] ok'
      show ?thesis by (simp add: eq)
    next
      case (Applied cs' act)
      with delete_category_resolves [OF ok, where B = B and result = result]
      show ?thesis by (simp add: eq)
    qed
  next
    case other
    note keep = item_actions_keep_ids [where result = result and B = B and E = E and s = s, OF other]
    show ?thesis
    proof (cases "applyAction B E result s")
      case (Threw e cs')
      with keep have "categoryIds cs' = categoryIds (categories s)" by simp
      from resolves_same_ids [OF this] ok' Threw show ?thesis by simp
    next
      case (Applied cs' act)
      with keep have "categoryIds cs' = categoryIds (categories s)" "act = None" by simp_all
      with resolves_same_ids [of cs' "categories s"] ok' Applied show ?thesis by simp
    qed
  qed
qed

lemma handleSendMessage_store:
  "(categories (handleSendMessage B E message undisturbed reply s) = categories s
      \<and> activeCategoryId (handleSendMessage B E message undisturbed reply s) = activeCategoryId s)
   \<or> (\<exists>result e cs. reply = Parsed result \<and> applyAction B E result s = Threw e cs
         \<and> categories (handleSendMessage B E message undisturbed reply s) = cs
         \<and> activeCategoryId (handleSendMessage B E message undisturbed reply s) = activeCategoryId s)
   \<or> (\<exists>result cs act. reply = Parsed result \<and> applyAction B E result s = Applied cs act
         \<and> categories (handleSendMessage B E message undisturbed reply s) = cs
         \<and> activeCategoryId (handleSendMessage B E message undisturbed reply s)
             = (case act of None \<Rightarrow> activeCategoryId s | Some a \<Rightarrow> a))"
proof (cases "trim B message = [] \<or> isLoadingAI s \<or> \<not> aiConfigured s")
  case True
  then show ?thesis by (auto simp: handleSendMessage_undisturbed Let_def)
next
  case False
  show ?thesis
  proof (cases reply)
    case Rejected
    with False show ?thesis by (simp add: handleSendMessage_undisturbed Let_def catchBlock_def)
  next
    case Unparsable
    with False show ?thesis by (simp add: handleSendMessage_undisturbed Let_def catchBlock_def)
  next
    case (Parsed result)
    show ?thesis
    proof (cases "applyAction B E result s")
      case (Threw e cs)
      with False Parsed show ?thesis by (simp add: handleSendMessage_undisturbed Let_def catchBlock_def)
    next
      case (Applied cs act)
      with False Parsed show ?thesis
        by (cases act) (simp_all add: handleSendMessage_undisturbed Let_def)
    qed
  qed
qed

lemma handleSendMessage_resolves:
  assumes ok: "activeOk s"
    and nm: "\<And>result. reply = Parsed result \<Longrightarrow> action result \<noteq> ''merge_categories''"
  shows "activeOk (handleSendMessage B E message undisturbed reply s)"
  using handleSendMessage_store [of B E message reply s]
proof (elim disjE exE conjE)
  assume "categories (handleSendMessage B E message undisturbed reply s) = categories s"
    "activeCategoryId (handleSendMessage B E message undisturbed reply s) = activeCategoryId s"
  with ok show ?thesis by (simp add: activeOk_resolves)
next
  fix result e cs
  assume r: "reply = Parsed result" "applyAction B E result s = Threw e cs"
    "categories (handleSendMessage B E message undisturbed reply s) = cs"
    "activeCategoryId (handleSendMessage B E message undisturbed reply s) = activeCategoryId s"
  with applied_resolves [OF ok nm [OF r(1)], where B = B and E = E] show ?thesis
    by (simp add: activeOk_resolves)
next
  fix result cs act
  assume r: "reply = Parsed result" "applyAction B E result s = Applied cs act"
    "categories (handleSendMessage B E message undisturbed reply s) = cs"
    "activeCategoryId (handleSendMessage B E message undisturbed reply s)
       = (case act of None \<Rightarrow> activeCategoryId s | Some a \<Rightarrow> a)"
  with applied_resolves [OF ok nm [OF r(1)], where B = B and E = E] show ?thesis
    by (simp add: activeOk_resolves)
qed

text \<open>
  Claim C6, as the code has it. After the effect that reselects has run, whatever
  operation came before it and whatever ran while a request was pending, the active
  category id is \<open>null\<close> or the id of a category of the store. Adding a category,
  deleting one, and every reply of the assistant other than a \<open>merge_categories\<close>
  response, with nothing run while the request was pending, keep that property by
  themselves: if it holds before the operation, it holds right after it.
\<close>

theorem active_category_resolves:
  "activeOk (reselect (step B e s))
   \<and> (activeOk s \<and> \<not> isMerge e \<and> alone e \<longrightarrow> activeOk (step B e s))"
proof (intro conjI impI)
  show "activeOk (reselect (step B e s))" by (rule reselect_resolves)
next
  assume a: "activeOk s \<and> \<not> isMerge e \<and> alone e"
  show "activeOk (step B e s)"
  proof (cases e)
    case (OpAddCategory now name icon)
    then show ?thesis by (simp add: handleAddCategory_resolves)
  next
    case (OpDeleteCategory categoryId)
    with a show ?thesis by (simp add: handleDeleteCategory_resolves)
  next
    case (OpAssistant E message W reply)
    with a have "\<And>result. reply = Parsed result \<Longrightarrow> action result \<noteq> ''merge_categories''"
      by auto
    with a OpAssistant show ?thesis by (simp add: handleSendMessage_resolves)
  next
    case OpReselect
    then show ?thesis by (simp add: reselect_resolves)
  qed
qed

text \<open>
  The theorem on the initial state, for a response that deletes the active category.
\<close>

theorem active_category_resolves_witness:
  "activeOk initialState
   \<and> \<not> isMerge (OpAssistant clock0 ''supprime'' undisturbed (Parsed deleteCategoryExample))
   \<and> alone (OpAssistant clock0 ''supprime'' undisturbed (Parsed deleteCategoryExample))
   \<and> activeOk (reselect (step ascii_builtins
        (OpAssistant clock0 ''supprime'' undisturbed (Parsed deleteCategoryExample)) initialState))
   \<and> activeOk (step ascii_builtins
        (OpAssistant clock0 ''supprime'' undisturbed (Parsed deleteCategoryExample)) initialState)"
proof -
  have h1: "activeOk initialState" by code_simp
  have h2: "\<not> isMerge (OpAssistant clock0 ''supprime'' undisturbed (Parsed deleteCategoryExample))"
    by (simp add: deleteCategoryExample_def)
  have h3: "alone (OpAssistant clock0 ''supprime'' undisturbed (Parsed deleteCategoryExample))"
    by simp
  from active_category_resolves [of ascii_builtins
      "OpAssistant clock0 ''supprime'' undisturbed (Parsed deleteCategoryExample)" initialState]
    h1 h2 h3
  show ?thesis by blast
qed

text \<open>
  Claim C6 as stated fails right after a merge whose source is the active category:
  the source is removed and \<open>activeCategoryId\<close> still holds its id, until the effect
  that reselects runs. It also fails after a \<open>chat\<close> reply when a category was added
  while the request was pending: the reply writes the captured array, without the
  new category, and \<open>activeCategoryId\<close> holds the id of the new category.
\<close>

theorem merge_leaves_active_dangling_counterexample:
  "activeOk initialState
   \<and> activeCategoryId initialState = Some ''cat-1''
   \<and> \<not> activeOk (step ascii_builtins
          (OpAssistant clock0 ''fusionne'' undisturbed (Parsed mergeExample)) initialState)
   \<and> activeOk (during addCategoryPending (sendMessage ascii_builtins clock0 ''salut'' initialState))
   \<and> \<not> activeOk (step ascii_builtins
          (OpAssistant clock0 ''salut'' addCategoryPending (Parsed chatExample)) initialState)"
  by code_simp

subsection \<open>Names are matched up to case\<close>








subsection \<open>The single undo record and its timer\<close>

lemma records_ignores_undo: "records e (s\<lparr>undoAction := u\<rparr>) = records e s"
  by (cases e) (simp_all add: activeCategory_def)

lemma perform_overwrites:
  assumes "records e s"
  shows "perform e (s\<lparr>undoAction := u\<rparr>) = perform e s"
proof (cases e)
  case (AddItem now cid body due)
  then show ?thesis by (simp add: handleAddItem_def Let_def)
next
  case (DeleteItem cid iid)
  with assms show ?thesis
    by (simp add: handleDeleteItem_def Let_def split: option.splits)
next
  case (ToggleItem cid iid)
  then show ?thesis by (simp add: handleToggleItem_def)
next
  case (UpdateItemNotes cid iid n)
  then show ?thesis by (simp add: handleUpdateItemNotes_def Let_def)
next
  case (DragEnd ev)
  with assms show ?thesis
    by (auto simp: handleDragEnd_def Let_def activeCategory_def map_option_case
        split: option.splits)
next
  case (AddCategory now name icon)
  then show ?thesis by (simp add: handleAddCategory_def Let_def)
next
  case (DeleteCategory cid)
  with assms show ?thesis
    by (auto simp: handleDeleteCategory_def Let_def split: option.splits)
qed

lemma perform_records_own:
  assumes r: "records e s" and p: "perform e s = Some s'"
  shows "\<exists>u. undoAction s' = Some u \<and> ownAction e u"
proof (cases e)
  case (AddItem now cid body due)
  with p show ?thesis by (auto simp: handleAddItem_def Let_def)
next
  case (DeleteItem cid iid)
  with r obtain c0 where c0: "find (\<lambda>c. cat_id c = cid) (categories s) = Some c0"
    and ne: "findIndex (\<lambda>i. item_id i = iid) (items c0) \<noteq> - 1"
    by (auto split: option.splits)
  from findIndex_found [OF ne]
  have "item_id (items c0 ! nat (findIndex (\<lambda>i. item_id i = iid) (items c0))) = iid" by simp
  with DeleteItem p c0 ne show ?thesis
    by (auto simp: handleDeleteItem_def Let_def)
next
  case (ToggleItem cid iid)
  with p show ?thesis by (auto simp: handleToggleItem_def)
next
  case (UpdateItemNotes cid iid n)
  with p show ?thesis by (auto simp: handleUpdateItemNotes_def Let_def)
next
  case (DragEnd ev)
  with r p show ?thesis by (auto simp: handleDragEnd_def Let_def)
next
  case (AddCategory now name icon)
  with p show ?thesis by (auto simp: handleAddCategory_def Let_def)
next
  case (DeleteCategory cid)
  with r obtain c0 where c0: "find (\<lambda>c. cat_id c = cid) (categories s) = Some c0" by auto
  from find_in_set [OF c0] have "cat_id c0 = cid" by simp
  with DeleteCategory p c0 show ?thesis
    by (auto simp: handleDeleteCategory_def Let_def)
qed

text \<open>
  Claim C7, as the code has it. The state holds one UndoAction or none: the field
  is a single value. A handler of the seven, in a state where it reaches its
  \<open>setUndoAction\<close> call, leaves its own action in the field, whatever action was there
  before: the state after it does not depend on the previous record. The timeout it
  starts is of 5100 ms; as long as less time has passed with no other event the
  action is still there, and once 5100 ms have passed it is cleared. A parsed reply
  of the assistant clears the field and records nothing, whether it changed the
  store or not, and so does \<open>handleUndo\<close>.
\<close>

theorem single_undo_action_expires:
  assumes r: "records e (app_of ts)" and d: "dispatch e ts = Some ts'"
  shows "(\<exists>u. undoAction (app_of ts') = Some u \<and> ownAction e u)
         \<and> map_option app_of (dispatch e (ts\<lparr>app_of := (app_of ts)\<lparr>undoAction := previous\<rparr>\<rparr>))
             = Some (app_of ts')
         \<and> undoTimer ts' = Some UNDO_DELAY
         \<and> (t < UNDO_DELAY \<longrightarrow> undoAction (app_of (elapse t ts')) = undoAction (app_of ts'))
         \<and> (UNDO_DELAY \<le> t \<longrightarrow> undoAction (app_of (elapse t ts')) = None)
         \<and> (requestSent B message s \<longrightarrow>
              undoAction (handleSendMessage B E message W (Parsed result) s) = None)
         \<and> (handleUndo s = Some undone \<longrightarrow> undoAction undone = None)"
proof -
  from d obtain s' where p: "perform e (app_of ts) = Some s'"
    and ts': "ts' = \<lparr>app_of = s', undoTimer = (if records e (app_of ts) then undoEffect s' else undoTimer ts)\<rparr>"
    by (auto simp: dispatch_def)
  from perform_records_own [OF r p] obtain u where u: "undoAction s' = Some u" "ownAction e u"
    by blast
  from r u have timer: "undoTimer ts' = Some UNDO_DELAY" by (simp add: ts' undoEffect_def)
  have app: "app_of ts' = s'" by (simp add: ts')
  have 1: "\<exists>u. undoAction (app_of ts') = Some u \<and> ownAction e u" using u app by simp
  have 2: "map_option app_of (dispatch e (ts\<lparr>app_of := (app_of ts)\<lparr>undoAction := previous\<rparr>\<rparr>))
             = Some (app_of ts')"
    using perform_overwrites [OF r, of previous] p app
    by (simp add: dispatch_def option.map_comp o_def)
  have 3: "t < UNDO_DELAY \<longrightarrow> undoAction (app_of (elapse t ts')) = undoAction (app_of ts')"
    using timer by (simp add: elapse_def)
  have 4: "UNDO_DELAY \<le> t \<longrightarrow> undoAction (app_of (elapse t ts')) = None"
    using timer by (simp add: elapse_def)
  have 5: "requestSent B message s \<longrightarrow>
              undoAction (handleSendMessage B E message W (Parsed result) s) = None"
    by (cases "applyAction B E result s")
       (simp_all add: handleSendMessage_def receiveReply_def catchBlock_def Let_def)
  have 6: "handleUndo s = Some undone \<longrightarrow> undoAction undone = None"
    by (auto simp: handleUndo_def split: option.splits)
  from 1 2 timer 3 4 5 6 show ?thesis by (intro conjI)
qed


text \<open>
  The theorem for the deletion of the first item of the first category, over a
  previous record, and for a reply and an undo after a toggle.
\<close>

theorem single_undo_action_expires_witness:
  "records (DeleteItem ''cat-1'' ''item-1'') (app_of timedInitial)
   \<and> dispatch (DeleteItem ''cat-1'' ''item-1'') timedInitial
        = Some (the (dispatch (DeleteItem ''cat-1'' ''item-1'') timedInitial))
   \<and> (\<exists>u. undoAction (app_of (the (dispatch (DeleteItem ''cat-1'' ''item-1'') timedInitial))) = Some u
          \<and> ownAction (DeleteItem ''cat-1'' ''item-1'') u)
   \<and> map_option app_of
        (dispatch (DeleteItem ''cat-1'' ''item-1'')
           (timedInitial\<lparr>app_of := (app_of timedInitial)\<lparr>undoAction := Some (CATEGORY_ADD ''cat-9'')\<rparr>\<rparr>))
        = Some (app_of (the (dispatch (DeleteItem ''cat-1'' ''item-1'') timedInitial)))
   \<and> (100 :: nat) < UNDO_DELAY
   \<and> undoAction (app_of (elapse 100 (the (dispatch (DeleteItem ''cat-1'' ''item-1'') timedInitial))))
        = undoAction (app_of (the (dispatch (DeleteItem ''cat-1'' ''item-1'') timedInitial)))
   \<and> UNDO_DELAY \<le> (5100 :: nat)
   \<and> undoAction (app_of (elapse 5100 (the (dispatch (DeleteItem ''cat-1'' ''item-1'') timedInitial))))
        = None
   \<and> requestSent ascii_builtins ''ajoute'' toggledState
   \<and> undoAction (handleSendMessage ascii_builtins clock0 ''ajoute'' undisturbed (Parsed addExample) toggledState)
        = None
   \<and> handleUndo toggledState = Some (the (handleUndo toggledState))
   \<and> undoAction (the (handleUndo toggledState)) = None"
proof -
  let ?e = "DeleteItem ''cat-1'' ''item-1''"
  have r: "records ?e (app_of timedInitial)" by code_simp
  have d: "dispatch ?e timedInitial = Some (the (dispatch ?e timedInitial))" by code_simp
  have t1: "(100 :: nat) < UNDO_DELAY" by (simp add: UNDO_DELAY_def)
  have t2: "UNDO_DELAY \<le> (5100 :: nat)" by (simp add: UNDO_DELAY_def)
  have q: "requestSent ascii_builtins ''ajoute'' toggledState" by code_simp
  have u: "handleUndo toggledState = Some (the (handleUndo toggledState))" by code_simp
  from single_undo_action_expires [OF r d, where previous = "Some (CATEGORY_ADD ''cat-9'')" and t = 100
      and B = ascii_builtins and message = "''ajoute''" and s = toggledState and E = clock0
      and W = undisturbed and result = addExample and undone = "the (handleUndo toggledState)"]
    single_undo_action_expires [OF r d, where previous = "Some (CATEGORY_ADD ''cat-9'')" and t = 5100
      and B = ascii_builtins and message = "''ajoute''" and s = toggledState and E = clock0
      and W = undisturbed and result = addExample and undone = "the (handleUndo toggledState)"]
    r d t1 t2 q u
  show ?thesis by blast
qed


text \<open>
  Claim C7 as stated fails for the operations of the assistant: an \<open>add\<close> response
  puts two items into the first category, and the UndoAction of the toggle before it
  is replaced by \<open>null\<close>, not by an action of the response.
\<close>

theorem assistant_records_no_action_counterexample:
  "undoAction toggledState = Some (ITEM_TOGGLE ''cat-1'' ''item-1'')
   \<and> map (\<lambda>c. length (items c)) (categories toggledState) = [2, 2, 0]
   \<and> map (\<lambda>c. length (items c)) (categories
        (handleSendMessage ascii_builtins clock0 ''ajoute'' undisturbed (Parsed addExample) toggledState))
       = [4, 2, 0]
   \<and> undoAction (handleSendMessage ascii_builtins clock0 ''ajoute'' undisturbed (Parsed addExample) toggledState)
       = None"
  by code_simp

end
